theory Spec2Isabelle
  imports Main "HOL-Library.AList"
begin

section \<open>Overview\<close>

text \<open>
  A shallow embedding of the relation-resolution, normalization and
  instantiation engine of \<^verbatim>\<open>Model.ts\<close> and \<^verbatim>\<open>Attributes.ts\<close>: the field descriptors and
  their factories, \<^verbatim>\<open>resolveRelation\<close>, \<^verbatim>\<open>normalize\<close> with \<^verbatim>\<open>attachForeignKeys\<close>, the
  constructor (\<^verbatim>\<open>$mergeFields\<close> and \<^verbatim>\<open>$initialize\<close>) and \<^verbatim>\<open>$toJson\<close>.

  Exceptions are values of the type \<open>error\<close>, and a function that may throw returns
  a sum. The constructor is recursive through the payload and through the
  declared values of the relations; its first argument bounds the depth of the
  nested calls, and \<open>instantiate_enough_fuel\<close> and \<open>instantiate_fuel_mono\<close> show that
  the bound is no restriction for relations declared through the factories.
  The constructor is given twice: on descriptors as values, for classes whose
  \<^verbatim>\<open>fields()\<close> builds its descriptors at each call, and on descriptors as objects in
  a store, for any \<^verbatim>\<open>fields()\<close>; \<open>instantiateS_fresh\<close> shows that the two agree on
  the former classes.

  What lies outside the two files is a parameter: the container that resolves
  entity names, and the first pass of the normalization (the normalizr library
  behind \<^verbatim>\<open>Data.normalize\<close> and \<^verbatim>\<open>Schema\<close>). Of lodash, \<^verbatim>\<open>_.forEach\<close>, \<^verbatim>\<open>_.mapValues\<close>,
  \<^verbatim>\<open>_.keys\<close>, \<^verbatim>\<open>_.includes\<close>, \<^verbatim>\<open>_.isNumber\<close>, \<^verbatim>\<open>_.isString\<close> and \<^verbatim>\<open>_.isArray\<close> are modelled
  on objects, arrays and primitive values; \<^verbatim>\<open>_.forEach\<close> walks by index whatever
  has a \<^verbatim>\<open>length\<close> that is a valid array length, an object with such a property
  included. A property read is a read of an own property. What a plain object
  inherits from \<^verbatim>\<open>Object.prototype\<close>, or an instance from \<^verbatim>\<open>Model\<close>, is not modelled:
  the embedding is of entity definitions none of whose field names is such a
  member (\<^verbatim>\<open>constructor\<close>, \<^verbatim>\<open>toString\<close>, \<^verbatim>\<open>$self\<close> and the like).
\<close>

section \<open>JavaScript values\<close>

text \<open>
  The values that flow through \<^verbatim>\<open>Model.ts\<close>: raw payloads, records, descriptor
  values and the properties of model instances are all of TypeScript type \<^verbatim>\<open>any\<close>.
  An object is its list of own enumerable properties in iteration order: the
  keys that are array indices first, ascending, then the others in the order of
  their creation (keys are unique in JavaScript; the theorems that need it
  assume \<open>distinct\<close> keys). A model instance is an object that also knows its class
  (\<^verbatim>\<open>this.constructor\<close>), written as the class identity \<open>cid\<close>. Numbers are integers
  here: a fraction is no valid array length, and nothing else below depends on
  fractions or on NaN.
\<close>

type_synonym cid = nat

datatype val =
    VNull
  | VUndef
  | VNum int
  | VStr string
  | VBool bool
  | VArr "val list"
  | VObj "(string \<times> val) list"
  | VInst cid "(string \<times> val) list"

type_synonym props = "(string \<times> val) list"

text \<open>JavaScript truthiness, as used by \<^verbatim>\<open>if (x)\<close>, \<^verbatim>\<open>!x\<close> and \<^verbatim>\<open>x ? a : b\<close>.\<close>

fun truthy :: "val \<Rightarrow> bool" where
  "truthy VNull = False"
| "truthy VUndef = False"
| "truthy (VNum n) = (n \<noteq> 0)"
| "truthy (VStr s) = (s \<noteq> [])"
| "truthy (VBool b) = b"
| "truthy (VArr xs) = True"
| "truthy (VObj ps) = True"
| "truthy (VInst c ps) = True"

text \<open>\<^verbatim>\<open>_.isNumber\<close>, \<^verbatim>\<open>_.isString\<close> and \<^verbatim>\<open>_.isArray\<close>.\<close>

fun isNumber :: "val \<Rightarrow> bool" where
  "isNumber (VNum n) = True"
| "isNumber v = False"


text \<open>
  Reading a property \<^verbatim>\<open>o[k]\<close> of an object gives \<^verbatim>\<open>undefined\<close> when the key is
  absent; writing \<^verbatim>\<open>o[k] = v\<close> replaces the value of an existing key in place and
  appends a new key at the end (\<open>AList.update\<close>). JavaScript places a new key that
  is an array index among the indices instead; the only new keys below are the
  properties of an instance, assigned in the order of the fields, and the
  foreign keys that the repair attaches, whose place no second walk depends on
  where no foreign key is a belongs-to field.
\<close>

definition getprop :: "props \<Rightarrow> string \<Rightarrow> val" where
  "getprop ps k = (case map_of ps k of None \<Rightarrow> VUndef | Some v \<Rightarrow> v)"

definition setprop :: "props \<Rightarrow> string \<Rightarrow> val \<Rightarrow> props" where
  "setprop ps k v = AList.update k v ps"

text \<open>\<^verbatim>\<open>_.mapValues(o, f)\<close>: the same keys in the same order, \<^verbatim>\<open>f(value, key)\<close> as values.\<close>

definition mapValues :: "('a \<Rightarrow> string \<Rightarrow> 'b) \<Rightarrow> (string \<times> 'a) list \<Rightarrow> (string \<times> 'b) list" where
  "mapValues f ps = map (\<lambda>(k, v). (k, f v k)) ps"

section \<open>lodash: walking a collection\<close>

text \<open>
  \<^verbatim>\<open>_.forEach(collection, iteratee)\<close> calls \<^verbatim>\<open>iteratee(value, key)\<close>. A collection
  is array-like (\<^verbatim>\<open>isArrayLike\<close>) when its \<^verbatim>\<open>length\<close> is a valid length (\<^verbatim>\<open>isLength\<close>):
  a number that is integral, not negative and at most \<^verbatim>\<open>Number.MAX_SAFE_INTEGER\<close>.
  Arrays and strings are array-like, and so is an object that has such a
  property \<^verbatim>\<open>length\<close>. An array-like collection is walked by index, from \<^verbatim>\<open>0\<close> to
  \<^verbatim>\<open>length - 1\<close>: the key is the index, a number, and the value is
  \<^verbatim>\<open>collection[index]\<close>, which is \<^verbatim>\<open>undefined\<close> where an object has no such property.
  Any other object is walked by its own keys, which are strings, and on any
  other value there is nothing to visit.
\<close>

datatype key = Name string | Index nat

text \<open>
  A number used as a property key is its decimal numeral: \<^verbatim>\<open>o[10]\<close> reads the
  property \<^verbatim>\<open>'10'\<close>.
\<close>

fun decimal :: "nat \<Rightarrow> string" where
  "decimal n =
     (if n < 10 then [''0123456789'' ! n]
      else decimal (n div 10) @ [''0123456789'' ! (n mod 10)])"

declare decimal.simps [simp del]

fun propertyKey :: "key \<Rightarrow> string" where
  "propertyKey (Name k) = k"
| "propertyKey (Index i) = decimal i"

definition isLength :: "val \<Rightarrow> bool" where
  "isLength v = (case v of VNum n \<Rightarrow> 0 \<le> n \<and> n \<le> 9007199254740991 | _ \<Rightarrow> False)"

definition isArrayLike :: "val \<Rightarrow> bool" where
  "isArrayLike collection =
     (case collection of
        VArr xs \<Rightarrow> True
      | VStr s \<Rightarrow> True
      | VObj ps \<Rightarrow> isLength (getprop ps ''length'')
      | VInst c ps \<Rightarrow> isLength (getprop ps ''length'')
      | _ \<Rightarrow> False)"

text \<open>\<^verbatim>\<open>collection.length\<close> and \<^verbatim>\<open>collection[index]\<close> of an array-like collection.\<close>

definition lengthOf :: "val \<Rightarrow> nat" where
  "lengthOf collection =
     (case collection of
        VArr xs \<Rightarrow> length xs
      | VStr s \<Rightarrow> length s
      | VObj ps \<Rightarrow> (case getprop ps ''length'' of VNum n \<Rightarrow> nat n | _ \<Rightarrow> 0)
      | VInst c ps \<Rightarrow> (case getprop ps ''length'' of VNum n \<Rightarrow> nat n | _ \<Rightarrow> 0)
      | _ \<Rightarrow> 0)"

definition elementAt :: "val \<Rightarrow> nat \<Rightarrow> val" where
  "elementAt collection i =
     (case collection of
        VArr xs \<Rightarrow> if i < length xs then xs ! i else VUndef
      | VStr s \<Rightarrow> if i < length s then VStr [s ! i] else VUndef
      | VObj ps \<Rightarrow> getprop ps (decimal i)
      | VInst c ps \<Rightarrow> getprop ps (decimal i)
      | _ \<Rightarrow> VUndef)"

text \<open>The visits of \<^verbatim>\<open>_.forEach(collection, ...)\<close>, in order: the key and the value of each.\<close>

definition forEach :: "val \<Rightarrow> (key \<times> val) list" where
  "forEach collection =
     (if isArrayLike collection then
        map (\<lambda>i. (Index i, elementAt collection i)) [0..<lengthOf collection]
      else
        (case collection of
           VObj ps \<Rightarrow> map (\<lambda>(k, v). (Name k, v)) ps
         | VInst c ps \<Rightarrow> map (\<lambda>(k, v). (Name k, v)) ps
         | _ \<Rightarrow> []))"

text \<open>
  \<^verbatim>\<open>_.includes(array, key)\<close> on an array of strings: the comparison is strict
  (SameValueZero), so a number is never found.
\<close>

definition includesKey :: "string list \<Rightarrow> key \<Rightarrow> bool" where
  "includesKey ks key = (case key of Name k \<Rightarrow> k \<in> set ks | Index i \<Rightarrow> False)"

section \<open>Field descriptors (Attributes)\<close>

text \<open>
  The enum \<^verbatim>\<open>Type\<close> and the five descriptor interfaces. A relation's \<^verbatim>\<open>model\<close> is
  \<^verbatim>\<open>typeof Model | string\<close>: a class by reference, or the name to look up in the
  container. A mutator is a JavaScript function from a value to a value.
\<close>

datatype Type = TypeAttr | TypeHasOne | TypeBelongsTo | TypeHasMany | TypeHasManyBy

datatype target = ModelRef cid | ModelName string

datatype attrs =
    Attr val "(val \<Rightarrow> val) option"
  | HasOne target string val bool
  | BelongsTo target string val bool
  | HasMany target string val bool
  | HasManyBy target string string val bool

fun type :: "attrs \<Rightarrow> Type" where
  "type (Attr v mu) = TypeAttr"
| "type (HasOne t fk v p) = TypeHasOne"
| "type (BelongsTo t fk v p) = TypeBelongsTo"
| "type (HasMany t fk v p) = TypeHasMany"
| "type (HasManyBy t fk ok v p) = TypeHasManyBy"

fun valueOf :: "attrs \<Rightarrow> val" where
  "valueOf (Attr v mu) = v"
| "valueOf (HasOne t fk v p) = v"
| "valueOf (BelongsTo t fk v p) = v"
| "valueOf (HasMany t fk v p) = v"
| "valueOf (HasManyBy t fk ok v p) = v"

text \<open>The assignment \<^verbatim>\<open>attr.value = v\<close>, on a descriptor taken as a value.\<close>

fun setValue :: "attrs \<Rightarrow> val \<Rightarrow> attrs" where
  "setValue (Attr v mu) w = Attr w mu"
| "setValue (HasOne t fk v p) w = HasOne t fk w p"
| "setValue (BelongsTo t fk v p) w = BelongsTo t fk w p"
| "setValue (HasMany t fk v p) w = HasMany t fk w p"
| "setValue (HasManyBy t fk ok v p) w = HasManyBy t fk ok w p"

fun polymorphic :: "attrs \<Rightarrow> bool" where
  "polymorphic (Attr v mu) = False"
| "polymorphic (HasOne t fk v p) = p"
| "polymorphic (BelongsTo t fk v p) = p"
| "polymorphic (HasMany t fk v p) = p"
| "polymorphic (HasManyBy t fk ok v p) = p"

text \<open>The factories of \<^verbatim>\<open>Attributes\<close>; a relation starts with the value \<^verbatim>\<open>null\<close>.\<close>

definition attr :: "val \<Rightarrow> (val \<Rightarrow> val) option \<Rightarrow> attrs" where
  "attr v mu = Attr v mu"

definition hasOne :: "target \<Rightarrow> string \<Rightarrow> bool \<Rightarrow> attrs" where
  "hasOne t fk p = HasOne t fk VNull p"

definition belongsTo :: "target \<Rightarrow> string \<Rightarrow> bool \<Rightarrow> attrs" where
  "belongsTo t fk p = BelongsTo t fk VNull p"

definition hasMany :: "target \<Rightarrow> string \<Rightarrow> bool \<Rightarrow> attrs" where
  "hasMany t fk p = HasMany t fk VNull p"

definition hasManyBy :: "target \<Rightarrow> string \<Rightarrow> string option \<Rightarrow> bool \<Rightarrow> attrs" where
  "hasManyBy t fk ok p =
     HasManyBy t fk (case ok of None \<Rightarrow> ''id'' | Some k \<Rightarrow> k) VNull p"

definition isRelation :: "attrs \<Rightarrow> bool" where
  "isRelation a = (type a \<noteq> TypeAttr)"

section \<open>Entity definitions and the container\<close>

text \<open>
  A subclass of \<^verbatim>\<open>Model\<close>: its static members. \<open>fields'\<close> is what the static method
  \<^verbatim>\<open>fields()\<close> returns, \<open>mutators\<close> what \<^verbatim>\<open>mutators()\<close> returns. The classes of a
  program are a table from class identities to definitions, and the container
  (\<^verbatim>\<open>connections/Container\<close>, not part of the two files) is taken as a parameter: a
  lookup from a connection name and an entity name to a class, which fails on a
  name that is not registered.
\<close>

type_synonym Fields = "(string \<times> attrs) list"

type_synonym Mutators = "(string \<times> (val \<Rightarrow> val)) list"

record model =
  connection :: string
  entity :: string
  primaryKey :: string
  fields' :: Fields
  mutators :: Mutators

record world =
  classes :: "cid \<Rightarrow> model"
  container :: "string \<Rightarrow> string \<Rightarrow> cid option"

datatype error = TypeError | UnknownEntity | StackOverflow

text \<open>\<^verbatim>\<open>Model.relation(name)\<close>, called on the class \<open>m\<close>.\<close>

definition relation :: "world \<Rightarrow> model \<Rightarrow> string \<Rightarrow> error + cid" where
  "relation W m name =
     (case container W (connection m) name of
        None \<Rightarrow> Inl UnknownEntity
      | Some c \<Rightarrow> Inr c)"

section \<open>Normalization: attaching foreign keys\<close>

type_synonym Record = props

type_synonym Records = "(string \<times> Record) list"


text \<open>
  The callback of the inner \<^verbatim>\<open>_.forEach(record, (value, field) => ...)\<close> of
  \<^verbatim>\<open>attachForeignKeys\<close>, as a function of the record under construction; \<open>field\<close> is
  the key of the visit as the property access \<^verbatim>\<open>fields[field]\<close> reads it.
\<close>

definition attachStep :: "Fields \<Rightarrow> val \<Rightarrow> string \<Rightarrow> Record \<Rightarrow> Record" where
  "attachStep fs v field newRecord =
     (case map_of fs field of
        None \<Rightarrow> newRecord
      | Some a \<Rightarrow>
          (case a of
             BelongsTo t key w p \<Rightarrow>
               if truthy (getprop newRecord key) then newRecord
               else setprop newRecord key v
           | _ \<Rightarrow> newRecord))"

text \<open>
  The body of the callback of \<^verbatim>\<open>_.mapValues(records, (record) => ...)\<close>: the walk is
  over \<^verbatim>\<open>record\<close>, the writes go to the copy \<^verbatim>\<open>newRecord = { ...record }\<close>.
\<close>

definition attachRecord :: "Fields \<Rightarrow> Record \<Rightarrow> Record" where
  "attachRecord fs record =
     fold (\<lambda>(field, v). attachStep fs v (propertyKey field)) (forEach (VObj record)) record"

definition attachForeignKeys :: "Records \<Rightarrow> model \<Rightarrow> Records" where
  "attachForeignKeys records m = mapValues (\<lambda>record k. attachRecord (fields' m) record) records"




section \<open>Resolving relations\<close>

text \<open>
  The property reads \<^verbatim>\<open>value.type\<close> and \<^verbatim>\<open>value[0]\<close>. On \<^verbatim>\<open>null\<close> and \<^verbatim>\<open>undefined\<close>
  both throw a TypeError. \<^verbatim>\<open>value.type\<close> is the property \<^verbatim>\<open>type\<close> of an object and
  \<^verbatim>\<open>undefined\<close> on any other value; \<^verbatim>\<open>value[0]\<close> is the property \<^verbatim>\<open>0\<close> of an object,
  the first element of an array or of a string, and \<^verbatim>\<open>undefined\<close> otherwise.
\<close>

fun propType :: "val \<Rightarrow> error + val" where
  "propType VNull = Inl TypeError"
| "propType VUndef = Inl TypeError"
| "propType (VObj ps) = Inr (getprop ps ''type'')"
| "propType (VInst c ps) = Inr (getprop ps ''type'')"
| "propType v = Inr VUndef"

fun index0 :: "val \<Rightarrow> error + val" where
  "index0 VNull = Inl TypeError"
| "index0 VUndef = Inl TypeError"
| "index0 (VStr s) = Inr (case s of [] \<Rightarrow> VUndef | ch # rest \<Rightarrow> VStr [ch])"
| "index0 (VArr xs) = Inr (case xs of [] \<Rightarrow> VUndef | x # rest \<Rightarrow> x)"
| "index0 (VObj ps) = Inr (getprop ps ''0'')"
| "index0 (VInst c ps) = Inr (getprop ps ''0'')"
| "index0 v = Inr VUndef"

text \<open>
  \<^verbatim>\<open>Model.resolveRelation(attr)\<close>, called on the class \<open>m\<close>. Its parameter type
  admits the four relation descriptors only; on an \<open>Attr\<close> the function here
  returns an error. The discriminator \<^verbatim>\<open>attr.value.type\<close> is handed to
  \<^verbatim>\<open>relation\<close>, whose parameter is a string: any other value names no entity.
\<close>

fun modelOf :: "attrs \<Rightarrow> target option" where
  "modelOf (Attr v mu) = None"
| "modelOf (HasOne t fk v p) = Some t"
| "modelOf (BelongsTo t fk v p) = Some t"
| "modelOf (HasMany t fk v p) = Some t"
| "modelOf (HasManyBy t fk ok v p) = Some t"

definition resolveRelation :: "world \<Rightarrow> model \<Rightarrow> attrs \<Rightarrow> error + cid" where
  "resolveRelation W m a =
     (if polymorphic a then
        (case propType (valueOf a) of
           Inl err \<Rightarrow> Inl err
         | Inr (VStr name) \<Rightarrow> relation W m name
         | Inr v \<Rightarrow> Inl UnknownEntity)
      else
        (case modelOf a of
           Some (ModelName name) \<Rightarrow> relation W m name
         | Some (ModelRef c) \<Rightarrow> Inr c
         | None \<Rightarrow> Inl TypeError))"

section \<open>Instantiation\<close>

text \<open>The assignment \<^verbatim>\<open>newFields[key].value = value\<close>.\<close>

definition setFieldValue :: "Fields \<Rightarrow> string \<Rightarrow> val \<Rightarrow> Fields" where
  "setFieldValue newFields key v =
     map (\<lambda>(k, a). if k = key then (k, setValue a v) else (k, a)) newFields"

text \<open>
  \<^verbatim>\<open>$mergeFields(data)\<close>, for a class whose \<^verbatim>\<open>fields()\<close> builds its descriptors at
  each call (a definition that calls the factories in the body of \<^verbatim>\<open>fields()\<close>,
  as the base class does with its empty object): the descriptors that the loop
  assigns to are then reachable from this call alone, and the function is its
  result. The section on descriptors as objects below models the same code over
  a store, for any \<^verbatim>\<open>fields()\<close>. The walk is \<^verbatim>\<open>_.forEach(data, (value, key) => ...)\<close>,
  and \<^verbatim>\<open>fieldKeys\<close> is \<^verbatim>\<open>_.keys(newFields)\<close>.
\<close>

definition mergeFields :: "Fields \<Rightarrow> val \<Rightarrow> Fields" where
  "mergeFields fs data =
     (if \<not> truthy data then fs
      else
        fold (\<lambda>(key, v) newFields.
                if \<not> includesKey (map fst fs) key then newFields
                else setFieldValue newFields (propertyKey key) v)
          (forEach data) fs)"

text \<open>\<^verbatim>\<open>xs.map(f)\<close> where \<open>f\<close> may throw: the first exception ends the loop.\<close>

fun mapE :: "('a \<Rightarrow> error + 'b) \<Rightarrow> 'a list \<Rightarrow> error + 'b list" where
  "mapE f [] = Inr []"
| "mapE f (x # xs) =
     (case f x of
        Inl err \<Rightarrow> Inl err
      | Inr y \<Rightarrow> (case mapE f xs of Inl err \<Rightarrow> Inl err | Inr ys \<Rightarrow> Inr (y # ys)))"

text \<open>
  The callback of the \<^verbatim>\<open>_.forEach(fields, (field, key) => ...)\<close> of \<^verbatim>\<open>$initialize\<close>:
  the value it assigns to \<^verbatim>\<open>this[key]\<close>. \<open>new c v\<close> stands for \<^verbatim>\<open>new model(v)\<close> with
  the resolved class \<open>c\<close>.
\<close>

definition initializeField ::
  "(cid \<Rightarrow> val \<Rightarrow> error + val) \<Rightarrow> world \<Rightarrow> model \<Rightarrow> string \<Rightarrow> attrs \<Rightarrow> error + val" where
  "initializeField new W m key field =
     (if valueOf field = VNull then Inr VNull
      else
        (case field of
           Attr v mu \<Rightarrow>
             (case (case mu of Some f \<Rightarrow> Some f | None \<Rightarrow> map_of (mutators m) key) of
                Some mutator \<Rightarrow> Inr (mutator v)
              | None \<Rightarrow> Inr v)
         | _ \<Rightarrow>
             if isNumber (valueOf field) then Inr VNull
             else
               (case index0 (valueOf field) of
                  Inl err \<Rightarrow> Inl err
                | Inr v0 \<Rightarrow>
                    if isNumber v0 then Inr VNull
                    else
                      (case resolveRelation W m field of
                         Inl err \<Rightarrow> Inl err
                       | Inr c \<Rightarrow>
                           if type field = TypeHasOne \<or> type field = TypeBelongsTo then
                             (if truthy (valueOf field) then new c (valueOf field)
                              else Inr VNull)
                           else
                             (if truthy (valueOf field) then
                                (case valueOf field of
                                   VArr xs \<Rightarrow>
                                     (case mapE (new c) xs of
                                        Inl err \<Rightarrow> Inl err
                                      | Inr ys \<Rightarrow> Inr (VArr ys))
                                 | _ \<Rightarrow> Inl TypeError)
                              else Inr VNull)))))"

text \<open>
  The loop of \<^verbatim>\<open>$initialize\<close>, with the properties of \<^verbatim>\<open>this\<close> assigned so far. The
  walk is over the field map, whose properties are descriptors: it has no number
  under \<^verbatim>\<open>length\<close> and is walked by its keys.
\<close>

fun initializeFields ::
  "(cid \<Rightarrow> val \<Rightarrow> error + val) \<Rightarrow> world \<Rightarrow> model \<Rightarrow> Fields \<Rightarrow> props \<Rightarrow> error + props" where
  "initializeFields new W m [] this = Inr this"
| "initializeFields new W m ((key, field) # rest) this =
     (case initializeField new W m key field of
        Inl err \<Rightarrow> Inl err
      | Inr v \<Rightarrow> initializeFields new W m rest (setprop this key v))"

text \<open>
  \<^verbatim>\<open>new model(data)\<close> for the class \<open>c\<close>: the constructor calls \<^verbatim>\<open>$initialize\<close>,
  which constructs the nested instances. The first argument bounds the depth of
  nested constructor calls; beyond it the call stack is exhausted.
\<close>

primrec instantiate :: "nat \<Rightarrow> world \<Rightarrow> cid \<Rightarrow> val \<Rightarrow> error + val" where
  "instantiate 0 W = (\<lambda>c data. Inl StackOverflow)"
| "instantiate (Suc n) W = (\<lambda>c data.
     (case initializeFields (instantiate n W) W (classes W c)
             (mergeFields (fields' (classes W c)) data) [] of
        Inl err \<Rightarrow> Inl err
      | Inr this \<Rightarrow> Inr (VInst c this)))"

section \<open>Serialization\<close>

text \<open>
  \<^verbatim>\<open>$toJson()\<close> is a method of model instances: the call \<^verbatim>\<open>this[key].$toJson()\<close>
  dispatches on the class of the nested instance and throws a TypeError on a
  value that is no instance. \<open>toJsonFields\<close> is the \<^verbatim>\<open>_.mapValues\<close> over the
  fields of the class, \<open>toJsonList\<close> the \<^verbatim>\<open>map\<close> over the elements of a has-many
  property.
\<close>

function toJson :: "world \<Rightarrow> val \<Rightarrow> error + val"
  and toJsonFields :: "world \<Rightarrow> props \<Rightarrow> Fields \<Rightarrow> error + props"
  and toJsonList :: "world \<Rightarrow> val list \<Rightarrow> error + val list" where
  "toJson W (VInst c this) =
     (case toJsonFields W this (fields' (classes W c)) of
        Inl err \<Rightarrow> Inl err
      | Inr js \<Rightarrow> Inr (VObj js))"
| "toJson W VNull = Inl TypeError"
| "toJson W VUndef = Inl TypeError"
| "toJson W (VNum n) = Inl TypeError"
| "toJson W (VStr s) = Inl TypeError"
| "toJson W (VBool b) = Inl TypeError"
| "toJson W (VArr xs) = Inl TypeError"
| "toJson W (VObj ps) = Inl TypeError"
| "toJsonFields W this [] = Inr []"
| "toJsonFields W this ((key, a) # rest) =
     (case (if \<not> truthy (getprop this key) then Inr (getprop this key)
            else if type a = TypeHasOne \<or> type a = TypeBelongsTo then
              toJson W (getprop this key)
            else if type a = TypeHasMany then
              (case getprop this key of
                 VArr xs \<Rightarrow>
                   (case toJsonList W xs of
                      Inl err \<Rightarrow> Inl err
                    | Inr ys \<Rightarrow> Inr (VArr ys))
               | _ \<Rightarrow> Inl TypeError)
            else Inr (getprop this key)) of
        Inl err \<Rightarrow> Inl err
      | Inr j \<Rightarrow>
          (case toJsonFields W this rest of
             Inl err \<Rightarrow> Inl err
           | Inr js \<Rightarrow> Inr ((key, j) # js)))"
| "toJsonList W [] = Inr []"
| "toJsonList W (x # xs) =
     (case toJson W x of
        Inl err \<Rightarrow> Inl err
      | Inr y \<Rightarrow> (case toJsonList W xs of Inl err \<Rightarrow> Inl err | Inr ys \<Rightarrow> Inr (y # ys)))"
  by pat_completeness auto

lemma size_getprop: "size (getprop ps k) \<le> size_list (size_prod (\<lambda>x. 0) size) ps"
proof (induction ps)
  case Nil
  then show ?case by (simp add: getprop_def)
next
  case (Cons p ps)
  then show ?case by (cases p) (auto simp: getprop_def split: option.splits)
qed

termination toJson
proof (relation "inv_image (less_than <*lex*> less_than)
    (\<lambda>x. case x of
       Inl (W, v) \<Rightarrow> (size v, 0)
     | Inr (Inl (W, ps, fs)) \<Rightarrow> (size_list (size_prod (\<lambda>x. 0) size) ps, Suc (length fs))
     | Inr (Inr (W, xs)) \<Rightarrow> (size_list size xs, 0))", goal_cases)
  case 1
  show ?case by (intro wf_inv_image wf_lex_prod wf_less_than)
next
  case (2 W c this)
  then show ?case by simp
next
  case (3 W this key a rest)
  then show ?case
    using size_getprop [of this key] by (cases "getprop this key") auto
next
  case (4 W this key a rest xs)
  then show ?case
    using size_getprop [of this key] by simp
next
  case (5 W this key a rest)
  then show ?case by simp
next
  case (6 W x xs)
  then show ?case by simp
next
  case (7 W x xs)
  then show ?case by simp
qed

section \<open>A program: users, posts, profiles\<close>

text \<open>
  Four classes registered on the connection \<^verbatim>\<open>entities\<close>. Every \<^verbatim>\<open>User\<close> has many
  posts and one profile; every \<^verbatim>\<open>Post\<close> belongs to its author, with the foreign key
  \<^verbatim>\<open>userId\<close>; a \<^verbatim>\<open>Profile\<close> takes the magnitude of its \<^verbatim>\<open>age\<close> by a mutator of the descriptor and of
  its \<^verbatim>\<open>visits\<close> by a mutator of the class; a \<^verbatim>\<open>Toggle\<close> exchanges the sides \<^verbatim>\<open>'a'\<close> and
  \<^verbatim>\<open>'b'\<close> by the mutator \<^verbatim>\<open>v => v === 'a' ? 'b' : v === 'b' ? 'a' : v\<close> of its field \<^verbatim>\<open>side\<close>.
\<close>

fun magnitude :: "val \<Rightarrow> val" where
  "magnitude (VNum k) = VNum (abs k)"
| "magnitude v = v"

definition swap :: "val \<Rightarrow> val" where
  "swap v = (if v = VStr ''a'' then VStr ''b'' else if v = VStr ''b'' then VStr ''a'' else v)"

definition User :: model where
  "User = \<lparr> connection = ''entities'', entity = ''User'', primaryKey = ''id'',
     fields' = [(''id'', attr VNull None), (''name'', attr (VStr '''') None),
                (''posts'', hasMany (ModelRef 1) ''userId'' False),
                (''profile'', hasOne (ModelName ''Profile'') ''userId'' False)],
     mutators = [] \<rparr>"

definition Post :: model where
  "Post = \<lparr> connection = ''entities'', entity = ''Post'', primaryKey = ''id'',
     fields' = [(''id'', attr VNull None), (''title'', attr (VStr '''') None),
                (''userId'', attr VNull None),
                (''author'', belongsTo (ModelName ''User'') ''userId'' False)],
     mutators = [] \<rparr>"

definition Profile :: model where
  "Profile = \<lparr> connection = ''entities'', entity = ''Profile'', primaryKey = ''id'',
     fields' = [(''id'', attr VNull None), (''age'', attr (VNum 0) (Some magnitude)),
                (''visits'', attr (VNum 0) None), (''bio'', attr (VStr '''') None)],
     mutators = [(''visits'', magnitude)] \<rparr>"

definition Toggle :: model where
  "Toggle = \<lparr> connection = ''entities'', entity = ''Toggle'', primaryKey = ''id'',
     fields' = [(''side'', attr (VStr ''a'') (Some swap))],
     mutators = [] \<rparr>"

definition blog :: world where
  "blog = \<lparr> classes = (\<lambda>c. if c = 0 then User else if c = 1 then Post
                         else if c = 2 then Profile else Toggle),
     container = (\<lambda>conn name.
       if conn = ''entities'' \<and> name = ''User'' then Some 0
       else if conn = ''entities'' \<and> name = ''Post'' then Some 1
       else if conn = ''entities'' \<and> name = ''Profile'' then Some 2
       else if conn = ''entities'' \<and> name = ''Toggle'' then Some 3
       else None) \<rparr>"

text \<open>The same program without the class \<^verbatim>\<open>Toggle\<close>.\<close>

definition press :: world where
  "press = \<lparr> classes = (\<lambda>c. if c = 0 then User else if c = 1 then Post else Profile),
     container = (\<lambda>conn name.
       if conn = ''entities'' \<and> name = ''User'' then Some 0
       else if conn = ''entities'' \<and> name = ''Post'' then Some 1
       else if conn = ''entities'' \<and> name = ''Profile'' then Some 2
       else None) \<rparr>"

text \<open>
  A holder of one slot, whose only field is named \<^verbatim>\<open>0\<close>; comments with a
  polymorphic target; and tracks with a field named \<^verbatim>\<open>length\<close>.
\<close>

definition Slot :: model where
  "Slot = \<lparr> connection = ''entities'', entity = ''Slot'', primaryKey = ''id'',
     fields' = [(''0'', attr (VNum 7) None)], mutators = [] \<rparr>"

definition Holder :: model where
  "Holder = \<lparr> connection = ''entities'', entity = ''Holder'', primaryKey = ''id'',
     fields' = [(''item'', hasOne (ModelRef 1) ''holderId'' False)], mutators = [] \<rparr>"

definition shelf :: world where
  "shelf = \<lparr> classes = (\<lambda>c. if c = 0 then Holder else Slot),
     container = (\<lambda>conn name. None) \<rparr>"

definition Comment :: model where
  "Comment = \<lparr> connection = ''entities'', entity = ''Comment'', primaryKey = ''id'',
     fields' = [(''id'', attr VNull None), (''target'', hasOne (ModelName ''Post'') ''id'' True)],
     mutators = [] \<rparr>"

definition forum :: world where
  "forum = \<lparr> classes = (\<lambda>c. if c = 0 then Comment else Post),
     container = (\<lambda>conn name. if conn = ''entities'' \<and> name = ''Post'' then Some 1 else None) \<rparr>"

definition Track :: model where
  "Track = \<lparr> connection = ''entities'', entity = ''Track'', primaryKey = ''id'',
     fields' = [(''length'', attr (VNum 3) None), (''name'', attr (VStr '''') None)],
     mutators = [] \<rparr>"

definition album :: world where
  "album = \<lparr> classes = (\<lambda>c. Track), container = (\<lambda>conn name. None) \<rparr>"



text \<open>
  A class whose foreign key \<^verbatim>\<open>b\<close> of the field \<^verbatim>\<open>a\<close> is itself a belongs-to
  field.
\<close>

definition Chain :: model where
  "Chain = \<lparr> connection = ''entities'', entity = ''Chain'', primaryKey = ''id'',
     fields' = [(''a'', belongsTo (ModelName ''User'') ''b'' False),
                (''b'', belongsTo (ModelName ''User'') ''c'' False)],
     mutators = [] \<rparr>"

text \<open>
  A class with a field named \<^verbatim>\<open>0\<close> and a foreign key named \<^verbatim>\<open>length\<close>; none of its
  foreign keys is a field.
\<close>

definition Ledger :: model where
  "Ledger = \<lparr> connection = ''entities'', entity = ''Ledger'', primaryKey = ''id'',
     fields' = [(''0'', belongsTo (ModelName ''User'') ''x'' False),
                (''b'', belongsTo (ModelName ''User'') ''x'' False),
                (''a'', belongsTo (ModelName ''User'') ''length'' False)],
     mutators = [] \<rparr>"

section \<open>Notions used in the proofs\<close>

text \<open>
  The visits of the walk over a record, with the key of each as the property
  access \<^verbatim>\<open>fields[field]\<close> reads it; and the visits of the walk over the data of
  \<^verbatim>\<open>$mergeFields\<close> whose key is a string, which are those that can name a field.
\<close>

definition visits :: "Record \<Rightarrow> Record" where
  "visits r = map (\<lambda>(key, v). (propertyKey key, v)) (forEach (VObj r))"

definition entries :: "val \<Rightarrow> props" where
  "entries data =
     concat (map (\<lambda>(key, v). case key of Name k \<Rightarrow> [(k, v)] | Index i \<Rightarrow> []) (forEach data))"

text \<open>The foreign key that a field of a record makes \<^verbatim>\<open>attachForeignKeys\<close> write.\<close>

definition belongsKey :: "Fields \<Rightarrow> string \<Rightarrow> string option" where
  "belongsKey fs f =
     (case map_of fs f of
        Some (BelongsTo t key w p) \<Rightarrow> Some key
      | _ \<Rightarrow> None)"

text \<open>One guarded write, seen from the key it writes; the writes a record makes to a key.\<close>

definition guard1 :: "val \<Rightarrow> val option \<Rightarrow> val option" where
  "guard1 u a = (if truthy (case a of None \<Rightarrow> VUndef | Some w \<Rightarrow> w) then a else Some u)"

definition writes :: "Fields \<Rightarrow> string \<Rightarrow> Record \<Rightarrow> val list" where
  "writes fs x es = map snd (filter (\<lambda>(f, v). belongsKey fs f = Some x) es)"

definition isWriter :: "Fields \<Rightarrow> string \<times> val \<Rightarrow> bool" where
  "isWriter fs e = (belongsKey fs (fst e) \<noteq> None)"

abbreviation attachFold :: "Fields \<Rightarrow> Record \<Rightarrow> Record \<Rightarrow> Record" where
  "attachFold fs es nr \<equiv> fold (\<lambda>(field, v). attachStep fs v field) es nr"

text \<open>
  The descriptor of the field \<open>k\<close> after the merge of the entries \<open>es\<close> of the data:
  the last entry of that name gives the value.
\<close>

definition mergedField :: "props \<Rightarrow> string \<Rightarrow> attrs \<Rightarrow> attrs" where
  "mergedField es k a = (case map_of (rev es) k of None \<Rightarrow> a | Some v \<Rightarrow> setValue a v)"

text \<open>
  What \<^verbatim>\<open>$toJson\<close> emits for a property \<open>p\<close> of a field of type \<open>ty\<close> (the body of
  the callback of its \<^verbatim>\<open>_.mapValues\<close>).
\<close>

definition jsonOf :: "world \<Rightarrow> Type \<Rightarrow> val \<Rightarrow> error + val" where
  "jsonOf W ty p =
     (if \<not> truthy p then Inr p
      else if ty = TypeHasOne \<or> ty = TypeBelongsTo then toJson W p
      else if ty = TypeHasMany then
        (case p of
           VArr xs \<Rightarrow> (case toJsonList W xs of Inl err \<Rightarrow> Inl err | Inr ys \<Rightarrow> Inr (VArr ys))
         | _ \<Rightarrow> Inl TypeError)
      else Inr p)"

text \<open>
  The mutator that the constructor applies to an attribute: \<^verbatim>\<open>field.mutator ||
  this.$self().mutators()[key]\<close>.
\<close>

definition fieldMutator :: "model \<Rightarrow> string \<Rightarrow> (val \<Rightarrow> val) option \<Rightarrow> (val \<Rightarrow> val) option" where
  "fieldMutator m key mu = (case mu of Some f \<Rightarrow> Some f | None \<Rightarrow> map_of (mutators m) key)"


text \<open>
  The programs whose relation fields are declared through the factories: their
  declared value is \<^verbatim>\<open>null\<close>, so that a nested constructor call is always on a part
  of the payload.
\<close>

definition factoryBuilt :: "world \<Rightarrow> bool" where
  "factoryBuilt W \<longleftrightarrow>
     (\<forall>c. \<forall>(k, a) \<in> set (fields' (classes W c)). isRelation a \<longrightarrow> valueOf a = VNull)"

section \<open>Descriptors as objects: the constructor over a store\<close>

text \<open>
  A descriptor is a JavaScript object, and \<^verbatim>\<open>$mergeFields\<close> assigns to its property
  \<^verbatim>\<open>value\<close>. Where it matters which descriptors a call of \<^verbatim>\<open>fields()\<close> returns, the
  descriptors live in a store: a cell per descriptor object, and the next free
  address. The object that \<^verbatim>\<open>fields()\<close> returns maps the field names to the
  addresses of their descriptors.
\<close>

type_synonym addr = nat

record store =
  cells :: "addr \<Rightarrow> attrs"
  nextFree :: addr

type_synonym FieldRefs = "(string \<times> addr) list"

text \<open>
  A program is its classes and container, and for every class its static method
  \<^verbatim>\<open>fields()\<close>: user code, which may run on the store and returns the field map.
\<close>

record program =
  base :: world
  fieldsMethod :: "cid \<Rightarrow> store \<Rightarrow> FieldRefs \<times> store"

text \<open>
  Two ways of writing \<^verbatim>\<open>fields()\<close>. \<open>freshFields\<close> builds the descriptors with the
  factories at each call, as in \<^verbatim>\<open>static fields () { return { id: this.attr(null) } }\<close>;
  \<open>sharedFields\<close> returns descriptors that were built once, as in
  \<^verbatim>\<open>static fields () { return FIELDS }\<close> for a constant \<^verbatim>\<open>FIELDS\<close>.
\<close>

definition alloc :: "attrs \<Rightarrow> store \<Rightarrow> addr \<times> store" where
  "alloc a h = (nextFree h, h\<lparr>cells := (cells h)(nextFree h := a), nextFree := Suc (nextFree h)\<rparr>)"

fun freshFields :: "Fields \<Rightarrow> store \<Rightarrow> FieldRefs \<times> store" where
  "freshFields [] h = ([], h)"
| "freshFields ((k, a) # fs) h =
     (case alloc a h of
        (x, h1) \<Rightarrow> (case freshFields fs h1 of (refs, h2) \<Rightarrow> ((k, x) # refs, h2)))"

definition sharedFields :: "FieldRefs \<Rightarrow> store \<Rightarrow> FieldRefs \<times> store" where
  "sharedFields refs h = (refs, h)"

text \<open>The assignment \<^verbatim>\<open>newFields[key].value = value\<close> on the descriptor at the address \<open>x\<close>.\<close>

definition writeValue :: "addr \<Rightarrow> val \<Rightarrow> store \<Rightarrow> store" where
  "writeValue x v h = h\<lparr>cells := (cells h)(x := setValue (cells h x) v)\<rparr>"

text \<open>
  \<^verbatim>\<open>$mergeFields(data)\<close>: the spread \<^verbatim>\<open>{ ...this.$fields() }\<close> makes a new map of the
  same descriptor objects, so the map of the result is that of \<^verbatim>\<open>fields()\<close>, and
  the loop writes into the descriptors that \<^verbatim>\<open>fields()\<close> returned.
\<close>

definition mergeFieldsS :: "program \<Rightarrow> cid \<Rightarrow> val \<Rightarrow> store \<Rightarrow> FieldRefs \<times> store" where
  "mergeFieldsS P c data h =
     (if \<not> truthy data then fieldsMethod P c h
      else
        (case fieldsMethod P c h of
           (newFields, h1) \<Rightarrow>
             (newFields,
              fold (\<lambda>(key, v) h'.
                      if \<not> includesKey (map fst newFields) key then h'
                      else
                        (case map_of newFields (propertyKey key) of
                           None \<Rightarrow> h'
                         | Some x \<Rightarrow> writeValue x v h'))
                (forEach data) h1)))"

text \<open>\<^verbatim>\<open>xs.map(v => new model(v))\<close> over the store.\<close>

fun mapES :: "('a \<Rightarrow> store \<Rightarrow> (error + 'b) \<times> store) \<Rightarrow> 'a list \<Rightarrow> store \<Rightarrow> (error + 'b list) \<times> store" where
  "mapES f [] h = (Inr [], h)"
| "mapES f (x # xs) h =
     (case f x h of
        (Inl err, h1) \<Rightarrow> (Inl err, h1)
      | (Inr y, h1) \<Rightarrow>
          (case mapES f xs h1 of
             (Inl err, h2) \<Rightarrow> (Inl err, h2)
           | (Inr ys, h2) \<Rightarrow> (Inr (y # ys), h2)))"

text \<open>
  The callback of the loop of \<^verbatim>\<open>$initialize\<close> for the descriptor object at \<open>x\<close>: the
  descriptor is read when the callback runs.
\<close>

definition initializeFieldS ::
  "(cid \<Rightarrow> val \<Rightarrow> store \<Rightarrow> (error + val) \<times> store) \<Rightarrow> world \<Rightarrow> model \<Rightarrow> string \<Rightarrow> addr \<Rightarrow>
     store \<Rightarrow> (error + val) \<times> store" where
  "initializeFieldS new W m key x h =
     (let field = cells h x in
      if valueOf field = VNull then (Inr VNull, h)
      else
        (case field of
           Attr v mu \<Rightarrow>
             (case (case mu of Some f \<Rightarrow> Some f | None \<Rightarrow> map_of (mutators m) key) of
                Some mutator \<Rightarrow> (Inr (mutator v), h)
              | None \<Rightarrow> (Inr v, h))
         | _ \<Rightarrow>
             if isNumber (valueOf field) then (Inr VNull, h)
             else
               (case index0 (valueOf field) of
                  Inl err \<Rightarrow> (Inl err, h)
                | Inr v0 \<Rightarrow>
                    if isNumber v0 then (Inr VNull, h)
                    else
                      (case resolveRelation W m field of
                         Inl err \<Rightarrow> (Inl err, h)
                       | Inr c \<Rightarrow>
                           if type field = TypeHasOne \<or> type field = TypeBelongsTo then
                             (if truthy (valueOf field) then new c (valueOf field) h
                              else (Inr VNull, h))
                           else
                             (if truthy (valueOf field) then
                                (case valueOf field of
                                   VArr xs \<Rightarrow>
                                     (case mapES (new c) xs h of
                                        (Inl err, h1) \<Rightarrow> (Inl err, h1)
                                      | (Inr ys, h1) \<Rightarrow> (Inr (VArr ys), h1))
                                 | _ \<Rightarrow> (Inl TypeError, h))
                              else (Inr VNull, h))))))"

fun initializeFieldsS ::
  "(cid \<Rightarrow> val \<Rightarrow> store \<Rightarrow> (error + val) \<times> store) \<Rightarrow> world \<Rightarrow> model \<Rightarrow> FieldRefs \<Rightarrow> props \<Rightarrow>
     store \<Rightarrow> (error + props) \<times> store" where
  "initializeFieldsS new W m [] this h = (Inr this, h)"
| "initializeFieldsS new W m ((key, x) # rest) this h =
     (case initializeFieldS new W m key x h of
        (Inl err, h1) \<Rightarrow> (Inl err, h1)
      | (Inr v, h1) \<Rightarrow> initializeFieldsS new W m rest (setprop this key v) h1)"

text \<open>\<^verbatim>\<open>new model(data)\<close> for the class \<open>c\<close>, over the store.\<close>

primrec instantiateS :: "nat \<Rightarrow> program \<Rightarrow> cid \<Rightarrow> val \<Rightarrow> store \<Rightarrow> (error + val) \<times> store" where
  "instantiateS 0 P = (\<lambda>c data h. (Inl StackOverflow, h))"
| "instantiateS (Suc n) P = (\<lambda>c data h.
     (case mergeFieldsS P c data h of
        (refs, h1) \<Rightarrow>
          (case initializeFieldsS (instantiateS n P) (base P) (classes (base P) c) refs [] h1 of
             (Inl err, h2) \<Rightarrow> (Inl err, h2)
           | (Inr this, h2) \<Rightarrow> (Inr (VInst c this), h2))))"

text \<open>
  A class of tags, once with a \<^verbatim>\<open>fields()\<close> that returns the two descriptors at
  the addresses 0 and 1 of the store, once with one that builds them at each
  call.
\<close>

definition Tag :: model where
  "Tag = \<lparr> connection = ''entities'', entity = ''Tag'', primaryKey = ''id'',
     fields' = [(''id'', attr VNull None), (''name'', attr (VStr '''') None)],
     mutators = [] \<rparr>"

definition tagging :: world where
  "tagging = \<lparr> classes = (\<lambda>c. Tag),
     container = (\<lambda>conn name. if conn = ''entities'' \<and> name = ''Tag'' then Some 0 else None) \<rparr>"

definition tagStore :: store where
  "tagStore = \<lparr> cells = (\<lambda>x. if x = 0 then attr VNull None else attr (VStr '''') None), nextFree = 2 \<rparr>"

definition cachedTags :: program where
  "cachedTags = \<lparr> base = tagging, fieldsMethod = (\<lambda>c. sharedFields [(''id'', 0), (''name'', 1)]) \<rparr>"

definition freshTags :: program where
  "freshTags = \<lparr> base = tagging, fieldsMethod = (\<lambda>c. freshFields (fields' Tag)) \<rparr>"

text \<open>
  Notions for the comparison of the two constructors. A store \<open>h'\<close> extends \<open>h\<close>
  when the descriptors allocated in \<open>h\<close> are as they were; a program is fresh
  when every \<^verbatim>\<open>fields()\<close> builds its descriptors at each call from the declared
  fields (of unique names); the descriptors at the addresses \<open>refs\<close> hold the
  fields \<open>fs\<close>.
\<close>

definition frame :: "store \<Rightarrow> store \<Rightarrow> bool" where
  "frame h h' \<longleftrightarrow> nextFree h \<le> nextFree h' \<and> (\<forall>x < nextFree h. cells h' x = cells h x)"

definition freshProgram :: "program \<Rightarrow> bool" where
  "freshProgram P \<longleftrightarrow>
     (\<forall>c. fieldsMethod P c = freshFields (fields' (classes (base P) c)) \<and>
          distinct (map fst (fields' (classes (base P) c))))"

definition holds :: "store \<Rightarrow> FieldRefs \<Rightarrow> Fields \<Rightarrow> bool" where
  "holds h refs fs \<longleftrightarrow> list_all2 (\<lambda>(k, x) (k', a). k' = k \<and> cells h x = a) refs fs"

section \<open>Properties of the walk\<close>

lemma forEach_plain:
  "\<not> isLength (getprop ps ''length'') \<Longrightarrow> forEach (VObj ps) = map (\<lambda>(k, v). (Name k, v)) ps"
  by (simp add: forEach_def isArrayLike_def)

lemma forEach_arrayLike:
  "isLength (getprop ps ''length'') \<Longrightarrow>
   forEach (VObj ps) = map (\<lambda>i. (Index i, getprop ps (decimal i))) [0..<lengthOf (VObj ps)]"
  by (simp add: forEach_def isArrayLike_def elementAt_def)

lemma visits_plain: "\<not> isLength (getprop r ''length'') \<Longrightarrow> visits r = r"
  by (simp add: visits_def forEach_plain comp_def case_prod_unfold)

lemma visits_arrayLike:
  "isLength (getprop r ''length'') \<Longrightarrow>
   visits r = map (\<lambda>i. (decimal i, getprop r (decimal i))) [0..<lengthOf (VObj r)]"
  by (simp add: visits_def forEach_arrayLike comp_def)

lemma attachRecord_visits:
  "attachRecord fs r = fold (\<lambda>(field, v). attachStep fs v field) (visits r) r"
  by (simp add: attachRecord_def visits_def fold_map comp_def case_prod_unfold)

lemma entries_object:
  "entries (VObj ps) = (if isLength (getprop ps ''length'') then [] else ps)"
  "entries (VInst c ps) = (if isLength (getprop ps ''length'') then [] else ps)"
proof -
  have named: "concat (map (\<lambda>(key, v). case key of Name k \<Rightarrow> [(k, v)] | Index i \<Rightarrow> [])
      (map (\<lambda>(k, v). (Name k, v)) qs)) = qs" for qs :: props
    by (induction qs) auto
  have indexed: "concat (map (\<lambda>(key, v). case key of Name k \<Rightarrow> [(k, v)] | Index i \<Rightarrow> [])
      (map (\<lambda>i. (Index i, f i)) is)) = ([] :: props)" for f :: "nat \<Rightarrow> val" and "is"
    by (induction "is") auto
  show "entries (VObj ps) = (if isLength (getprop ps ''length'') then [] else ps)"
    by (simp add: entries_def forEach_def isArrayLike_def named indexed del: map_map)
  show "entries (VInst c ps) = (if isLength (getprop ps ''length'') then [] else ps)"
    by (simp add: entries_def forEach_def isArrayLike_def named indexed del: map_map)
qed

lemma entries_other:
  "entries VNull = []" "entries VUndef = []" "entries (VNum n) = []" "entries (VStr s) = []"
  "entries (VBool b) = []" "entries (VArr xs) = []"
proof -
  have indexed: "concat (map (\<lambda>(key, v). case key of Name k \<Rightarrow> [(k, v)] | Index i \<Rightarrow> [])
      (map (\<lambda>i. (Index i, f i)) is)) = ([] :: props)" for f :: "nat \<Rightarrow> val" and "is"
    by (induction "is") auto
  show "entries VNull = []" "entries VUndef = []" "entries (VNum n) = []" "entries (VBool b) = []"
    by (simp_all add: entries_def forEach_def isArrayLike_def)
  show "entries (VStr s) = []" "entries (VArr xs) = []"
    by (simp_all add: entries_def forEach_def isArrayLike_def indexed del: map_map)
qed

lemma entries_subset: "set (entries d) \<subseteq> (case d of VObj ps \<Rightarrow> set ps | VInst c ps \<Rightarrow> set ps | _ \<Rightarrow> {})"
  by (cases d) (simp_all add: entries_object entries_other)

lemma getprop_absent: "k \<notin> fst ` set ps \<Longrightarrow> getprop ps k = VUndef"
  by (simp add: getprop_def map_of_eq_None_iff [THEN iffD2])

lemma isLength_VUndef [simp]: "\<not> isLength VUndef"
  by (simp add: isLength_def)

lemma entries_no_length:
  "''length'' \<notin> fst ` set ps \<Longrightarrow> entries (VObj ps) = ps"
  "''length'' \<notin> fst ` set ps \<Longrightarrow> entries (VInst c ps) = ps"
  by (simp_all add: entries_object getprop_absent)

lemma fold_named:
  "fold (\<lambda>(key, v) s. if \<not> includesKey K key then s else g (propertyKey key) v s) xs s =
   fold (\<lambda>(k, v) s. if k \<notin> set K then s else g k v s)
     (concat (map (\<lambda>(key, v). case key of Name k \<Rightarrow> [(k, v)] | Index i \<Rightarrow> []) xs)) s"
  by (induction xs arbitrary: s) (auto simp: includesKey_def split: key.splits)

lemma mergeFields_entries:
  "mergeFields fs data =
     (if \<not> truthy data then fs
      else
        fold (\<lambda>(key, v) newFields.
                if key \<notin> set (map fst fs) then newFields
                else setFieldValue newFields key v)
          (entries data) fs)"
  unfolding mergeFields_def entries_def
  using fold_named [of "map fst fs" "\<lambda>k v nf. setFieldValue nf k v" "forEach data" fs]
  by simp

text \<open>The decimal numeral of a number is made of digits, and is not empty.\<close>

lemma decimal_digits: "decimal n \<noteq> [] \<and> set (decimal n) \<subseteq> set ''0123456789''"
proof (induction n rule: decimal.induct)
  case (1 n)
  have d: "''0123456789'' ! k \<in> set ''0123456789''" if "k < 10" for k
    using that nth_mem [of k "''0123456789''"] by simp
  show ?case
  proof (cases "n < 10")
    case True
    with d [of n] show ?thesis by (subst decimal.simps, subst (2) decimal.simps) simp
  next
    case False
    have "n mod 10 < 10" by simp
    from d [OF this] 1 False show ?thesis
      by (subst decimal.simps, subst (2) decimal.simps) simp
  qed
qed


section \<open>Properties of the foreign-key repair\<close>


lemma attachStep_belongsKey:
  "attachStep fs v f nr =
     (case belongsKey fs f of
        None \<Rightarrow> nr
      | Some key \<Rightarrow> if truthy (getprop nr key) then nr else setprop nr key v)"
  by (simp add: attachStep_def belongsKey_def split: option.splits attrs.splits)

lemma map_of_setprop: "map_of (setprop ps k v) = (map_of ps)(k \<mapsto> v)"
  by (simp add: setprop_def update_conv')

lemma getprop_setprop: "getprop (setprop ps k v) x = (if x = k then v else getprop ps x)"
  by (simp add: getprop_def map_of_setprop)

lemma keys_setprop:
  "map fst (setprop ps k v) = (if k \<in> set (map fst ps) then map fst ps else map fst ps @ [k])"
  by (simp add: setprop_def update_keys)

lemma distinct_setprop: "distinct (map fst ps) \<Longrightarrow> distinct (map fst (setprop ps k v))"
  by (simp add: setprop_def distinct_update)

lemma attachFold_truthy:
  "truthy (getprop nr x) \<Longrightarrow> getprop (attachFold fs es nr) x = getprop nr x"
proof (induction es arbitrary: nr)
  case Nil
  then show ?case by simp
next
  case (Cons e es)
  obtain f v where e: "e = (f, v)" by (cases e)
  have "getprop (attachStep fs v f nr) x = getprop nr x"
    using Cons.prems by (auto simp: attachStep_belongsKey getprop_setprop split: option.splits)
  with Cons show ?case by (simp add: e)
qed

lemma attachFold_no_writer:
  "\<forall>(f, v) \<in> set es. belongsKey fs f \<noteq> Some x \<Longrightarrow>
   getprop (attachFold fs es nr) x = getprop nr x"
proof (induction es arbitrary: nr)
  case Nil
  then show ?case by simp
next
  case (Cons e es)
  obtain f v where e: "e = (f, v)" by (cases e)
  have "getprop (attachStep fs v f nr) x = getprop nr x"
    using Cons.prems by (auto simp: e attachStep_belongsKey getprop_setprop split: option.splits)
  with Cons show ?case by (simp add: e)
qed

lemma truthy_getprop_key: "truthy (getprop ps x) \<Longrightarrow> x \<in> fst ` set ps"
  by (cases "map_of ps x") (auto simp: getprop_def dest: map_of_SomeD intro: rev_image_eqI)



lemma map_of_attachStep:
  "map_of (attachStep fs v f nr) x =
     (if belongsKey fs f = Some x then guard1 v (map_of nr x) else map_of nr x)"
  by (auto simp: attachStep_belongsKey guard1_def getprop_def map_of_setprop split: option.splits)

lemma map_of_attachFold:
  "map_of (attachFold fs es nr) x = fold guard1 (writes fs x es) (map_of nr x)"
proof (induction es arbitrary: nr)
  case Nil
  then show ?case by (simp add: writes_def)
next
  case (Cons e es)
  obtain f v where e: "e = (f, v)" by (cases e)
  show ?case
    by (simp add: e Cons.IH map_of_attachStep) (simp add: writes_def)
qed

lemma fold_guard1_truthy:
  "truthy (case a of None \<Rightarrow> VUndef | Some w \<Rightarrow> w) \<Longrightarrow> fold guard1 us a = a"
  by (induction us) (simp_all add: guard1_def)

lemma fold_guard1_falsy:
  "\<not> truthy (case a of None \<Rightarrow> VUndef | Some w \<Rightarrow> w) \<Longrightarrow>
   \<not> truthy (case b of None \<Rightarrow> VUndef | Some w \<Rightarrow> w) \<Longrightarrow> us \<noteq> [] \<Longrightarrow>
   fold guard1 us a = fold guard1 us b"
  by (cases us) (simp_all add: guard1_def)

lemma fold_guard1_idem: "fold guard1 us (fold guard1 us a) = fold guard1 us a"
proof (cases "truthy (case fold guard1 us a of None \<Rightarrow> VUndef | Some w \<Rightarrow> w)")
  case True
  then show ?thesis by (rule fold_guard1_truthy)
next
  case False
  show ?thesis
  proof (cases "us = []")
    case True
    then show ?thesis by simp
  next
    case ne: False
    have fa: "\<not> truthy (case a of None \<Rightarrow> VUndef | Some w \<Rightarrow> w)"
      using False fold_guard1_truthy [of a us] by auto
    show ?thesis
      using fold_guard1_falsy [OF False fa ne] .
  qed
qed






lemma attachRecord_truthy:
  "truthy (getprop r x) \<Longrightarrow> getprop (attachRecord fs r) x = getprop r x"
  by (simp add: attachRecord_visits attachFold_truthy)

lemma attachRecord_no_writer:
  "\<forall>(f, v) \<in> set (visits r). belongsKey fs f \<noteq> Some x \<Longrightarrow>
   getprop (attachRecord fs r) x = getprop r x"
  by (simp add: attachRecord_visits attachFold_no_writer)

text \<open>The keys of a record only grow, and every key written is present afterwards.\<close>

lemma keyset_setprop: "fst ` set (setprop ps k v) = insert k (fst ` set ps)"
  by (simp add: setprop_def dom_update)

lemma keys_attachStep_mono: "fst ` set nr \<subseteq> fst ` set (attachStep fs v f nr)"
  by (auto simp: attachStep_belongsKey keyset_setprop split: option.splits)

lemma keys_attachFold_mono: "fst ` set nr \<subseteq> fst ` set (attachFold fs es nr)"
proof (induction es arbitrary: nr)
  case Nil
  then show ?case by simp
next
  case (Cons e es)
  obtain f v where e: "e = (f, v)" by (cases e)
  show ?case
    using Cons.IH [of "attachStep fs v f nr"] keys_attachStep_mono [of nr fs v f]
    by (simp add: e) blast?
qed

lemma written_key_present:
  "(f, v) \<in> set es \<Longrightarrow> belongsKey fs f = Some x \<Longrightarrow> x \<in> fst ` set (attachFold fs es nr)"
proof (induction es arbitrary: nr)
  case Nil
  then show ?case by simp
next
  case (Cons e es)
  obtain g u where e: "e = (g, u)" by (cases e)
  show ?case
  proof (cases "(f, v) = e")
    case True
    then have "x \<in> fst ` set (attachStep fs u g nr)"
      using Cons.prems(2) e truthy_getprop_key [of nr x]
      by (auto simp: attachStep_belongsKey keyset_setprop)
    then show ?thesis
      using keys_attachFold_mono [of "attachStep fs u g nr" fs es] by (auto simp: e)
  next
    case False
    then have "(f, v) \<in> set es" using Cons.prems(1) by auto
    from Cons.IH [OF this Cons.prems(2)] show ?thesis by (simp add: e)
  qed
qed

lemma keys_attachFold_present:
  "\<forall>(f, v) \<in> set es. \<forall>x. belongsKey fs f = Some x \<longrightarrow> x \<in> fst ` set nr \<Longrightarrow>
   map fst (attachFold fs es nr) = map fst nr"
proof (induction es arbitrary: nr)
  case Nil
  then show ?case by simp
next
  case (Cons e es)
  obtain f v where e: "e = (f, v)" by (cases e)
  define n' where "n' = attachStep fs v f nr"
  have k: "map fst n' = map fst nr"
    using Cons.prems by (auto simp: n'_def e attachStep_belongsKey keys_setprop split: option.splits)
  then have "fst ` set n' = fst ` set nr"
    by (metis set_map)
  with Cons.prems have "\<forall>(g, u) \<in> set es. \<forall>x. belongsKey fs g = Some x \<longrightarrow> x \<in> fst ` set n'"
    by auto
  from Cons.IH [OF this] k show ?case by (simp add: e n'_def)
qed

lemma distinct_attachFold:
  "distinct (map fst nr) \<Longrightarrow> distinct (map fst (attachFold fs es nr))"
proof (induction es arbitrary: nr)
  case Nil
  then show ?case by simp
next
  case (Cons e es)
  obtain f v where e: "e = (f, v)" by (cases e)
  have "distinct (map fst (attachStep fs v f nr))"
    using Cons.prems by (auto simp: attachStep_belongsKey distinct_setprop split: option.splits)
  from Cons.IH [OF this] show ?case by (simp add: e)
qed

text \<open>
  Where no foreign key is itself a belongs-to field, the entries of a record that
  write are left as they were.
\<close>

lemma filter_update_other:
  "\<not> P k \<Longrightarrow> filter (\<lambda>e. P (fst e)) (AList.update k v ps) = filter (\<lambda>e. P (fst e)) ps"
  by (induction ps) auto

lemma writers_attachStep:
  assumes "\<forall>g key. belongsKey fs g = Some key \<longrightarrow> belongsKey fs key = None"
  shows "filter (isWriter fs) (attachStep fs v f nr) = filter (isWriter fs) nr"
proof (cases "belongsKey fs f")
  case None
  then show ?thesis by (simp add: attachStep_belongsKey)
next
  case (Some key)
  with assms have "belongsKey fs key = None" by blast
  then have "filter (\<lambda>e. belongsKey fs (fst e) \<noteq> None) (AList.update key v nr)
      = filter (\<lambda>e. belongsKey fs (fst e) \<noteq> None) nr"
    by (intro filter_update_other) simp
  then show ?thesis
    using Some unfolding isWriter_def by (simp add: attachStep_belongsKey setprop_def)
qed

lemma writers_attachFold:
  assumes "\<forall>g key. belongsKey fs g = Some key \<longrightarrow> belongsKey fs key = None"
  shows "filter (isWriter fs) (attachFold fs es nr) = filter (isWriter fs) nr"
proof (induction es arbitrary: nr)
  case Nil
  then show ?case by simp
next
  case (Cons e es)
  obtain f v where e: "e = (f, v)" by (cases e)
  show ?case by (simp add: e Cons.IH writers_attachStep [OF assms])
qed

lemma writes_via_writers:
  "writes fs x es = map snd (filter (\<lambda>(f, v). belongsKey fs f = Some x) (filter (isWriter fs) es))"
  by (induction es) (auto simp: writes_def isWriter_def)

lemma alist_ext:
  "distinct (map fst s) \<Longrightarrow> map fst s = map fst t \<Longrightarrow> map_of s = map_of t \<Longrightarrow> s = t"
proof (induction s arbitrary: t)
  case Nil
  then show ?case by simp
next
  case (Cons p s)
  from Cons.prems(2) obtain q t' where t: "t = q # t'" by (cases t) auto
  obtain k v where p: "p = (k, v)" by (cases p)
  obtain k' v' where q: "q = (k', v')" by (cases q)
  from Cons.prems(2) have kk: "k' = k" and keys: "map fst s = map fst t'" by (auto simp: t p q)
  from Cons.prems(3) have "map_of (p # s) k = map_of t k" by (rule fun_cong)
  then have vv: "v' = v" by (simp add: t p q kk)
  have nk: "k \<notin> fst ` set s" using Cons.prems(1) by (simp add: p)
  then have nk': "k \<notin> fst ` set t'" using keys by (metis set_map)
  have "map_of s = map_of t'"
  proof
    fix x
    show "map_of s x = map_of t' x"
    proof (cases "x = k")
      case True
      then show ?thesis using nk nk' map_of_eq_None_iff [of s k] map_of_eq_None_iff [of t' k] by simp
    next
      case False
      from Cons.prems(3) have "map_of (p # s) x = map_of t x" by (rule fun_cong)
      then show ?thesis using False by (simp add: t p q kk)
    qed
  qed
  with Cons.IH [of t'] Cons.prems(1) keys have "s = t'" by simp
  then show ?case by (simp add: t p q kk vv)
qed

text \<open>
  The fields that a second walk visits and that write. The repair writes under
  foreign keys only: where none of them is \<^verbatim>\<open>length\<close> the record is array-like after
  the repair when it was before, of the same length, and where none of them is a
  belongs-to field the visits that write are those of the first walk.
\<close>

lemma writers_visits:
  assumes nochain: "\<forall>g key. belongsKey fs g = Some key \<longrightarrow> belongsKey fs key = None"
    and nolength: "\<forall>g. belongsKey fs g \<noteq> Some ''length''"
  shows "filter (isWriter fs) (visits (attachRecord fs r)) = filter (isWriter fs) (visits r)"
proof -
  define t where "t = attachRecord fs r"
  have len: "getprop t ''length'' = getprop r ''length''"
    unfolding t_def using nolength by (intro attachRecord_no_writer) simp
  show ?thesis
  proof (cases "isLength (getprop r ''length'')")
    case False
    with len have "visits t = t" "visits r = r" by (simp_all add: visits_plain)
    then show ?thesis
      using writers_attachFold [OF nochain, of "visits r" r]
      by (simp add: t_def [symmetric]) (simp add: t_def attachRecord_visits)
  next
    case True
    have L: "lengthOf (VObj t) = lengthOf (VObj r)" by (simp add: lengthOf_def len)
    have same: "getprop t (decimal i) = getprop r (decimal i)"
      if "belongsKey fs (decimal i) \<noteq> None" for i
    proof -
      have "\<forall>(f, v) \<in> set (visits r). belongsKey fs f \<noteq> Some (decimal i)"
      proof (clarify)
        fix f v
        assume "belongsKey fs f = Some (decimal i)"
        with nochain have "belongsKey fs (decimal i) = None" by blast
        with that show False by simp
      qed
      then show ?thesis unfolding t_def by (rule attachRecord_no_writer)
    qed
    have "filter (isWriter fs) (map (\<lambda>i. (decimal i, getprop t (decimal i))) is)
        = filter (isWriter fs) (map (\<lambda>i. (decimal i, getprop r (decimal i))) is)" for "is"
      by (induction "is") (auto simp: isWriter_def same)
    with True len L show ?thesis
      by (simp add: t_def [symmetric] visits_arrayLike)
  qed
qed

lemma attachRecord_idem:
  assumes nochain: "\<forall>g key. belongsKey fs g = Some key \<longrightarrow> belongsKey fs key = None"
    and nolength: "\<forall>g. belongsKey fs g \<noteq> Some ''length''"
    and dist: "distinct (map fst r)"
  shows "attachRecord fs (attachRecord fs r) = attachRecord fs r"
proof -
  define t where "t = attachRecord fs r"
  have t: "t = attachFold fs (visits r) r" by (simp add: t_def attachRecord_visits)
  have dt: "distinct (map fst t)" unfolding t by (rule distinct_attachFold [OF dist])
  have wr: "filter (isWriter fs) (visits t) = filter (isWriter fs) (visits r)"
    unfolding t_def by (rule writers_visits [OF nochain nolength])
  have ws: "writes fs x (visits t) = writes fs x (visits r)" for x
    by (simp add: writes_via_writers wr)
  have present: "\<forall>(f, v) \<in> set (visits t). \<forall>x. belongsKey fs f = Some x \<longrightarrow> x \<in> fst ` set t"
  proof (clarify)
    fix f v x
    assume m: "(f, v) \<in> set (visits t)" and b: "belongsKey fs f = Some x"
    then have "(f, v) \<in> set (filter (isWriter fs) (visits t))" by (simp add: isWriter_def)
    then have "(f, v) \<in> set (visits r)" using wr by simp
    from written_key_present [OF this b] show "x \<in> fst ` set t" by (simp add: t)
  qed
  have keys: "map fst (attachFold fs (visits t) t) = map fst t"
    by (rule keys_attachFold_present [OF present])
  have vals: "map_of (attachFold fs (visits t) t) = map_of t"
  proof
    fix x
    have "map_of (attachFold fs (visits t) t) x = fold guard1 (writes fs x (visits r)) (map_of t x)"
      by (simp add: map_of_attachFold ws)
    also have "map_of t x = fold guard1 (writes fs x (visits r)) (map_of r x)"
      by (simp add: t map_of_attachFold)
    finally show "map_of (attachFold fs (visits t) t) x = map_of t x"
      by (simp add: fold_guard1_idem t map_of_attachFold)
  qed
  have "attachFold fs (visits t) t = t"
    by (rule sym, rule alist_ext [OF dt keys [symmetric] vals [symmetric]])
  then have "attachRecord fs t = t" by (simp add: attachRecord_visits)
  then show ?thesis by (simp add: t_def)
qed

lemma belongsKey_Some:
  "belongsKey fs f = Some key \<longleftrightarrow> (\<exists>t w p. map_of fs f = Some (BelongsTo t key w p))"
  by (auto simp: belongsKey_def split: option.splits attrs.splits)

lemma belongsKey_None:
  "belongsKey fs f = None \<longleftrightarrow> (\<forall>t key w p. map_of fs f \<noteq> Some (BelongsTo t key w p))"
  by (auto simp: belongsKey_def split: option.splits attrs.splits)

lemma attachForeignKeys_mem:
  "(i, r) \<in> set records \<Longrightarrow> (i, attachRecord (fields' m) r) \<in> set (attachForeignKeys records m)"
  by (force simp: attachForeignKeys_def mapValues_def)



text \<open>
  C8, as amended. In the repair step the test \<^verbatim>\<open>if (newRecord[key])\<close> is a test of
  truthiness: for every record of the collection and every key \<open>fk\<close> (so the
  foreign key of every belongs-to field), a truthy value that the record holds
  under \<open>fk\<close> is the value of the repaired record at \<open>fk\<close>; a foreign key is
  synthesized only where the value under it is absent or falsy.
\<close>

theorem attachForeignKeys_keeps_truthy_key:
  assumes "(i, r) \<in> set records"
    and "truthy (getprop r fk)"
  shows "(i, attachRecord (fields' m) r) \<in> set (attachForeignKeys records m) \<and>
         getprop (attachRecord (fields' m) r) fk = getprop r fk"
  using assms attachForeignKeys_mem [of i r records m]
  by (simp add: attachRecord_truthy)

theorem attachForeignKeys_keeps_truthy_key_witness:
  "truthy (getprop [(''id'', VNum 10), (''userId'', VNum 7), (''author'', VNum 1)] ''userId'') \<and>
   getprop (attachRecord (fields' Post)
     [(''id'', VNum 10), (''userId'', VNum 7), (''author'', VNum 1)]) ''userId'' = VNum 7"
  using attachForeignKeys_keeps_truthy_key
    [of "''10''" "[(''id'', VNum 10), (''userId'', VNum 7), (''author'', VNum 1)]"
        "[(''10'', [(''id'', VNum 10), (''userId'', VNum 7), (''author'', VNum 1)])]"
        "''userId''" Post]
  by (simp add: getprop_def)

text \<open>
  The claim as stated fails: a post that holds the value \<^verbatim>\<open>0\<close> under \<^verbatim>\<open>userId\<close> and
  the id \<^verbatim>\<open>1\<close> under \<^verbatim>\<open>author\<close> leaves the repair with \<^verbatim>\<open>userId: 1\<close>.
\<close>

theorem attachForeignKeys_overwrites_falsy_key:
  "map_of (fields' Post) ''author'' = Some (BelongsTo (ModelName ''User'') ''userId'' VNull False) \<and>
   map_of [(''id'', VNum 10), (''userId'', VNum 0), (''author'', VNum 1)] ''userId'' = Some (VNum 0) \<and>
   attachForeignKeys [(''10'', [(''id'', VNum 10), (''userId'', VNum 0), (''author'', VNum 1)])] Post
     = [(''10'', [(''id'', VNum 10), (''userId'', VNum 1), (''author'', VNum 1)])]"
  by (simp add: Post_def attr_def belongsTo_def attachForeignKeys_def mapValues_def
      attachRecord_visits visits_plain attachStep_def getprop_def setprop_def)


lemma blog_simps:
  "classes blog c = (if c = 0 then User else if c = 1 then Post else if c = 2 then Profile else Toggle)"
  "relation blog User ''User'' = Inr 0"
  "relation blog User ''Post'' = Inr 1"
  "relation blog User ''Profile'' = Inr 2"
  "fields' Post = [(''id'', Attr VNull None), (''title'', Attr (VStr '''') None),
      (''userId'', Attr VNull None),
      (''author'', BelongsTo (ModelName ''User'') ''userId'' VNull False)]"
  "fields' User = [(''id'', Attr VNull None), (''name'', Attr (VStr '''') None),
      (''posts'', HasMany (ModelRef 1) ''userId'' VNull False),
      (''profile'', HasOne (ModelName ''Profile'') ''userId'' VNull False)]"
  "fields' Profile = [(''id'', Attr VNull None), (''age'', Attr (VNum 0) (Some magnitude)),
      (''visits'', Attr (VNum 0) None), (''bio'', Attr (VStr '''') None)]"
  "mutators Profile = [(''visits'', magnitude)]"
  "mutators User = []"
  "mutators Post = []"
  "fields' Toggle = [(''side'', Attr (VStr ''a'') (Some swap))]"
  "mutators Toggle = []"
  by (simp_all add: blog_def relation_def User_def Post_def Profile_def Toggle_def
      attr_def belongsTo_def hasMany_def hasOne_def)




text \<open>
  A record with a valid array length under \<^verbatim>\<open>length\<close> is walked by index: a post
  that holds \<^verbatim>\<open>author\<close> and \<^verbatim>\<open>length: 3\<close> is visited at \<^verbatim>\<open>0\<close>, \<^verbatim>\<open>1\<close> and \<^verbatim>\<open>2\<close>, none of
  them a field, and nothing is attached. More generally, nothing is attached to
  an array-like record of an entity none of whose belongs-to fields is named by
  a numeral.
\<close>

lemma attachRecord_arrayLike:
  assumes "isLength (getprop r ''length'')"
    and "\<forall>i. belongsKey fs (decimal i) = None"
  shows "attachRecord fs r = r"
proof -
  have "fold (\<lambda>(field, v). attachStep fs v field) (map (\<lambda>i. (decimal i, g i)) is) nr = nr"
    for g :: "nat \<Rightarrow> val" and "is" nr
    using assms(2) by (induction "is" arbitrary: nr) (simp_all add: attachStep_belongsKey)
  with assms(1) show ?thesis by (simp add: attachRecord_visits visits_arrayLike)
qed

lemma post_with_length_is_not_repaired:
  "attachRecord (fields' Post)
     [(''id'', VNum 10), (''title'', VStr ''Hi''), (''author'', VNum 1), (''length'', VNum 3)]
   = [(''id'', VNum 10), (''title'', VStr ''Hi''), (''author'', VNum 1), (''length'', VNum 3)]"
proof (rule attachRecord_arrayLike)
  show "isLength (getprop [(''id'', VNum 10), (''title'', VStr ''Hi''), (''author'', VNum 1),
      (''length'', VNum 3)] ''length'')"
    by (simp add: getprop_def isLength_def)
  show "\<forall>i. belongsKey (fields' Post) (decimal i) = None"
  proof
    fix i
    from decimal_digits [of i] have "decimal i \<noteq> ''author''" by auto
    then show "belongsKey (fields' Post) (decimal i) = None"
      by (simp add: belongsKey_def blog_simps)
  qed
qed

text \<open>
  C10, as amended. Where no foreign key of a belongs-to field of the entity is
  itself the name of a belongs-to field of the entity, and none is \<^verbatim>\<open>length\<close>,
  \<^verbatim>\<open>attachForeignKeys\<close> is idempotent on every collection of records (objects:
  their keys are unique).
\<close>

theorem attachForeignKeys_idempotent:
  assumes nochain: "\<forall>f t key w p. map_of (fields' m) f = Some (BelongsTo t key w p) \<longrightarrow>
        (\<forall>t' key' w' p'. map_of (fields' m) key \<noteq> Some (BelongsTo t' key' w' p'))"
    and nolength: "\<forall>f t w p. map_of (fields' m) f \<noteq> Some (BelongsTo t ''length'' w p)"
    and keys: "\<forall>(i, r) \<in> set records. distinct (map fst r)"
  shows "attachForeignKeys (attachForeignKeys records m) m = attachForeignKeys records m"
proof -
  have nc: "\<forall>g key. belongsKey (fields' m) g = Some key \<longrightarrow> belongsKey (fields' m) key = None"
    using nochain by (simp add: belongsKey_Some belongsKey_None) blast
  have nl: "\<forall>g. belongsKey (fields' m) g \<noteq> Some ''length''"
    using nolength by (simp add: belongsKey_Some)
  have "attachRecord (fields' m) (attachRecord (fields' m) r) = attachRecord (fields' m) r"
    if "(i, r) \<in> set records" for i r
    using attachRecord_idem [OF nc nl] keys that by auto
  then show ?thesis
    by (auto simp: attachForeignKeys_def mapValues_def)
qed

theorem attachForeignKeys_idempotent_witness:
  "attachForeignKeys (attachForeignKeys
       [(''10'', [(''id'', VNum 10), (''title'', VStr ''Hi''), (''author'', VNum 1)])] Post) Post
     = [(''10'', [(''id'', VNum 10), (''title'', VStr ''Hi''), (''author'', VNum 1), (''userId'', VNum 1)])]"
proof -
  have "attachForeignKeys [(''10'', [(''id'', VNum 10), (''title'', VStr ''Hi''), (''author'', VNum 1)])] Post
     = [(''10'', [(''id'', VNum 10), (''title'', VStr ''Hi''), (''author'', VNum 1), (''userId'', VNum 1)])]"
    by (simp add: blog_simps attachForeignKeys_def mapValues_def
        attachRecord_visits visits_plain attachStep_def getprop_def setprop_def)
  moreover have "attachForeignKeys (attachForeignKeys
       [(''10'', [(''id'', VNum 10), (''title'', VStr ''Hi''), (''author'', VNum 1)])] Post) Post
     = attachForeignKeys [(''10'', [(''id'', VNum 10), (''title'', VStr ''Hi''), (''author'', VNum 1)])] Post"
    by (rule attachForeignKeys_idempotent) (simp_all add: blog_simps)
  ultimately show ?thesis by simp
qed

text \<open>
  The claim as stated fails on the class \<^verbatim>\<open>Chain\<close>, whose field \<^verbatim>\<open>a\<close> has the
  foreign key \<^verbatim>\<open>b\<close> and whose field \<^verbatim>\<open>b\<close> has the foreign key \<^verbatim>\<open>c\<close>: the first
  application attaches \<^verbatim>\<open>b\<close>, the second finds \<^verbatim>\<open>b\<close> on the record and attaches
  \<^verbatim>\<open>c\<close>.
\<close>

theorem attachForeignKeys_not_idempotent_on_chain:
  "attachForeignKeys [(''1'', [(''a'', VNum 1)])] Chain = [(''1'', [(''a'', VNum 1), (''b'', VNum 1)])] \<and>
   attachForeignKeys (attachForeignKeys [(''1'', [(''a'', VNum 1)])] Chain) Chain
     = [(''1'', [(''a'', VNum 1), (''b'', VNum 1), (''c'', VNum 1)])]"
  by (simp add: Chain_def belongsTo_def attachForeignKeys_def mapValues_def
      attachRecord_visits visits_plain attachStep_def getprop_def setprop_def)

text \<open>
  A foreign key named \<^verbatim>\<open>length\<close> breaks idempotence in another way. On the class
  \<^verbatim>\<open>Ledger\<close> no foreign key is a field; the first application attaches \<^verbatim>\<open>x\<close> and
  \<^verbatim>\<open>length: 1\<close>, which makes the record array-like, and the second visits the index
  \<^verbatim>\<open>0\<close> alone and writes \<^verbatim>\<open>x\<close> again.
\<close>

lemma decimal_0: "decimal 0 = ''0''"
  by (simp add: decimal.simps [of 0])

lemma attachForeignKeys_not_idempotent_with_length:
  "attachForeignKeys [(''1'', [(''0'', VNum 0), (''b'', VNull), (''a'', VNum 1)])] Ledger
     = [(''1'', [(''0'', VNum 0), (''b'', VNull), (''a'', VNum 1), (''x'', VNull), (''length'', VNum 1)])] \<and>
   attachForeignKeys (attachForeignKeys
       [(''1'', [(''0'', VNum 0), (''b'', VNull), (''a'', VNum 1)])] Ledger) Ledger
     = [(''1'', [(''0'', VNum 0), (''b'', VNull), (''a'', VNum 1), (''x'', VNum 0), (''length'', VNum 1)])]"
proof -
  have first: "attachRecord (fields' Ledger) [(''0'', VNum 0), (''b'', VNull), (''a'', VNum 1)]
      = [(''0'', VNum 0), (''b'', VNull), (''a'', VNum 1), (''x'', VNull), (''length'', VNum 1)]"
    by (simp add: Ledger_def belongsTo_def attachRecord_visits visits_plain attachStep_def
        getprop_def setprop_def)
  have second: "attachRecord (fields' Ledger)
        [(''0'', VNum 0), (''b'', VNull), (''a'', VNum 1), (''x'', VNull), (''length'', VNum 1)]
      = [(''0'', VNum 0), (''b'', VNull), (''a'', VNum 1), (''x'', VNum 0), (''length'', VNum 1)]"
    by (simp add: Ledger_def belongsTo_def attachRecord_visits visits_arrayLike lengthOf_def
        isLength_def decimal_0 attachStep_def getprop_def setprop_def)
  show ?thesis
    by (simp add: attachForeignKeys_def mapValues_def first second)
qed

section \<open>Properties of the merge and of the constructor\<close>


lemma setValue_setValue [simp]: "setValue (setValue a v) w = setValue a w"
  by (cases a) simp_all

lemma valueOf_setValue [simp]: "valueOf (setValue a v) = v"
  by (cases a) simp_all

lemma type_setValue [simp]: "type (setValue a v) = type a"
  by (cases a) simp_all

lemma polymorphic_setValue [simp]: "polymorphic (setValue a v) = polymorphic a"
  by (cases a) simp_all

lemma modelOf_setValue [simp]: "modelOf (setValue a v) = modelOf a"
  by (cases a) simp_all

lemma keys_setFieldValue [simp]: "map fst (setFieldValue nf key v) = map fst nf"
  by (induction nf) (auto simp: setFieldValue_def)

lemma mergedField_Nil [simp]: "mergedField [] k a = a"
  by (simp add: mergedField_def)

lemma mergedField_Cons_other:
  "k \<noteq> key \<Longrightarrow> mergedField ((key, v) # es) k a = mergedField es k a"
  by (simp add: mergedField_def map_add_def split: option.splits)

lemma mergedField_Cons_same:
  "mergedField ((key, v) # es) key a = mergedField es key (setValue a v)"
  by (simp add: mergedField_def map_add_def split: option.splits)

lemma merge_fold:
  "fst ` set nf \<subseteq> K \<Longrightarrow>
   fold (\<lambda>(key, v) newFields.
          if key \<notin> K then newFields else setFieldValue newFields key v) es nf
     = map (\<lambda>(k, a). (k, mergedField es k a)) nf"
proof (induction es arbitrary: nf)
  case Nil
  then show ?case by simp
next
  case (Cons e es)
  obtain key v where e: "e = (key, v)" by (cases e)
  show ?case
  proof (cases "key \<in> K")
    case False
    have "map (\<lambda>(k, a). (k, mergedField ((key, v) # es) k a)) nf
        = map (\<lambda>(k, a). (k, mergedField es k a)) nf"
    proof (rule map_cong [OF refl])
      fix p assume p: "p \<in> set nf"
      obtain k a where ka: "p = (k, a)" by (cases p)
      from p ka Cons.prems have "k \<in> K" by force
      with False have "k \<noteq> key" by blast
      then show "(case p of (k, a) \<Rightarrow> (k, mergedField ((key, v) # es) k a))
          = (case p of (k, a) \<Rightarrow> (k, mergedField es k a))"
        by (simp add: ka mergedField_Cons_other)
    qed
    with Cons.IH [OF Cons.prems] False show ?thesis by (simp add: e)
  next
    case True
    have k': "fst ` set (setFieldValue nf key v) \<subseteq> K"
      using Cons.prems keys_setFieldValue [of nf key v] by (metis set_map)
    have "map (\<lambda>(k, a). (k, mergedField es k a)) (setFieldValue nf key v)
        = map (\<lambda>(k, a). (k, mergedField ((key, v) # es) k a)) nf"
      unfolding setFieldValue_def map_map
    proof (rule map_cong [OF refl])
      fix p assume p: "p \<in> set nf"
      obtain k a where ka: "p = (k, a)" by (cases p)
      show "((\<lambda>(k, a). (k, mergedField es k a)) \<circ>
            (\<lambda>(k, a). if k = key then (k, setValue a v) else (k, a))) p
          = (case p of (k, a) \<Rightarrow> (k, mergedField ((key, v) # es) k a))"
        by (simp add: ka mergedField_Cons_other mergedField_Cons_same)
    qed
    with Cons.IH [OF k'] True show ?thesis by (simp add: e)
  qed
qed

lemma mergeFields_eq:
  "mergeFields fs data =
     (if \<not> truthy data then fs
      else map (\<lambda>(k, a). (k, mergedField (entries data) k a)) fs)"
  using merge_fold [of fs "set (map fst fs)" "entries data"]
  by (simp add: mergeFields_entries)

lemma mergeFields_plain:
  "''length'' \<notin> fst ` set ps \<Longrightarrow>
   mergeFields fs (VObj ps) = map (\<lambda>(k, a). (k, mergedField ps k a)) fs"
  by (simp add: mergeFields_eq entries_no_length)

lemma mergeFields_arrayLike:
  "isLength (getprop ps ''length'') \<Longrightarrow> mergeFields fs (VObj ps) = fs"
  by (simp add: mergeFields_eq entries_object case_prod_unfold)

lemma keys_mergeFields [simp]: "map fst (mergeFields fs data) = map fst fs"
  by (simp add: mergeFields_eq case_prod_unfold comp_def)

lemma mergedField_filter:
  "k \<in> K \<Longrightarrow> mergedField (filter (\<lambda>(key, v). key \<in> K) es) k a = mergedField es k a"
proof (induction es arbitrary: a)
  case Nil
  then show ?case by simp
next
  case (Cons e es)
  obtain key v where e: "e = (key, v)" by (cases e)
  show ?case
  proof (cases "key = k")
    case True
    with Cons show ?thesis by (simp add: e mergedField_Cons_same)
  next
    case False
    with Cons show ?thesis by (simp add: e mergedField_Cons_other)
  qed
qed

lemma getprop_filter:
  "getprop (filter (\<lambda>(key, v). key \<in> K) ps) k = (if k \<in> K then getprop ps k else VUndef)"
  by (induction ps) (auto simp: getprop_def)

text \<open>
  The keys of a payload that name no field change nothing, unless one of them is
  a \<^verbatim>\<open>length\<close> that makes the payload array-like.
\<close>

lemma mergeFields_ignores_unknown:
  assumes "isLength (getprop ps ''length'') \<Longrightarrow> ''length'' \<in> fst ` set fs"
  shows "mergeFields fs (VObj (filter (\<lambda>(key, v). key \<in> fst ` set fs) ps)) = mergeFields fs (VObj ps)"
proof (cases "isLength (getprop ps ''length'')")
  case True
  with assms have "isLength (getprop (filter (\<lambda>(key, v). key \<in> fst ` set fs) ps) ''length'')"
    by (simp add: getprop_filter)
  with True show ?thesis by (simp add: mergeFields_arrayLike)
next
  case False
  then have nf: "\<not> isLength (getprop (filter (\<lambda>(key, v). key \<in> fst ` set fs) ps) ''length'')"
    by (simp add: getprop_filter)
  have "map (\<lambda>(k, a). (k, mergedField (filter (\<lambda>(key, v). key \<in> fst ` set fs) ps) k a)) fs
      = map (\<lambda>(k, a). (k, mergedField ps k a)) fs"
  proof (rule map_cong [OF refl])
    fix p assume p: "p \<in> set fs"
    obtain k a where ka: "p = (k, a)" by (cases p)
    from p ka have "k \<in> fst ` set fs" by force
    then show "(case p of (k, a) \<Rightarrow> (k, mergedField (filter (\<lambda>(key, v). key \<in> fst ` set fs) ps) k a))
        = (case p of (k, a) \<Rightarrow> (k, mergedField ps k a))"
      by (simp add: ka mergedField_filter)
  qed
  with False nf show ?thesis by (simp add: mergeFields_eq entries_object)
qed

text \<open>The loop of the constructor assigns one property per field, in the order of the fields.\<close>

lemma setprop_append: "k \<notin> fst ` set ps \<Longrightarrow> setprop ps k v = ps @ [(k, v)]"
  by (induction ps) (auto simp: setprop_def)

lemma initializeFields_props:
  "initializeFields new W m fs this = Inr ps \<Longrightarrow> distinct (map fst fs) \<Longrightarrow>
   fst ` set fs \<inter> fst ` set this = {} \<Longrightarrow>
   \<exists>qs. ps = this @ qs \<and> map fst qs = map fst fs \<and>
     list_all2 (\<lambda>(k, a) (k', v). initializeField new W m k a = Inr v) fs qs"
proof (induction fs arbitrary: this)
  case Nil
  then show ?case by simp
next
  case (Cons p fs)
  obtain k a where p: "p = (k, a)" by (cases p)
  from Cons.prems(1) obtain v where v: "initializeField new W m k a = Inr v"
    and rest: "initializeFields new W m fs (setprop this k v) = Inr ps"
    by (auto simp: p split: sum.splits)
  have knew: "k \<notin> fst ` set this" using Cons.prems(3) by (auto simp: p)
  then have sp: "setprop this k v = this @ [(k, v)]" by (rule setprop_append)
  have d: "distinct (map fst fs)" using Cons.prems(2) by simp
  have disj: "fst ` set fs \<inter> fst ` set (setprop this k v) = {}"
    using Cons.prems(2,3) by (auto simp: sp p)
  from Cons.IH [OF rest d disj] obtain qs where qs: "ps = setprop this k v @ qs"
    "map fst qs = map fst fs" "list_all2 (\<lambda>(k, a) (k', v). initializeField new W m k a = Inr v) fs qs"
    by blast
  show ?case
    by (rule exI [of _ "(k, v) # qs"]) (simp add: qs sp p v)
qed

lemma list_all2_getprop:
  "list_all2 (\<lambda>(k, a) (k', v). P k a v) fs qs \<Longrightarrow> map fst qs = map fst fs \<Longrightarrow>
   distinct (map fst fs) \<Longrightarrow> (k, a) \<in> set fs \<Longrightarrow> P k a (getprop qs k) \<and> map_of qs k = Some (getprop qs k)"
proof (induction fs qs rule: list_all2_induct)
  case Nil
  then show ?case by simp
next
  case (Cons p fs q qs)
  obtain k0 a0 where p: "p = (k0, a0)" by (cases p)
  obtain k1 v1 where q: "q = (k1, v1)" by (cases q)
  from Cons.prems(1) have kk: "k1 = k0" by (simp add: p q)
  show ?case
  proof (cases "(k, a) = p")
    case True
    with Cons.hyps(1) show ?thesis by (simp add: p q kk getprop_def)
  next
    case False
    then have mem: "(k, a) \<in> set fs" using Cons.prems(3) by simp
    then have "k \<in> fst ` set fs" by force
    then have "k \<noteq> k0" using Cons.prems(2) by (auto simp: p)
    moreover have "P k a (getprop qs k) \<and> map_of qs k = Some (getprop qs k)"
      using Cons.IH Cons.prems mem by simp
    ultimately show ?thesis by (simp add: q kk getprop_def)
  qed
qed

lemma instantiate_Suc:
  "instantiate (Suc n) W c data =
     (case initializeFields (instantiate n W) W (classes W c)
             (mergeFields (fields' (classes W c)) data) [] of
        Inl err \<Rightarrow> Inl err
      | Inr this \<Rightarrow> Inr (VInst c this))"
  by simp

lemma instantiate_props:
  assumes inst: "instantiate n W c data = Inr I"
    and dist: "distinct (map fst (fields' (classes W c)))"
  shows "\<exists>n' ps. n = Suc n' \<and> I = VInst c ps \<and> map fst ps = map fst (fields' (classes W c)) \<and>
     list_all2 (\<lambda>(k, a) (k', v). initializeField (instantiate n' W) W (classes W c) k a = Inr v)
       (mergeFields (fields' (classes W c)) data) ps"
proof -
  from inst obtain n' where n: "n = Suc n'" by (cases n) auto
  let ?fs = "mergeFields (fields' (classes W c)) data"
  from inst obtain ps where ps: "initializeFields (instantiate n' W) W (classes W c) ?fs [] = Inr ps"
    and I: "I = VInst c ps"
    unfolding n instantiate_Suc by (auto split: sum.splits)
  have d: "distinct (map fst ?fs)" using dist by simp
  from initializeFields_props [OF ps d] have
    "map fst ps = map fst ?fs \<and>
     list_all2 (\<lambda>(k, a) (k', v). initializeField (instantiate n' W) W (classes W c) k a = Inr v) ?fs ps"
    by auto
  then show ?thesis using n I by simp
qed

section \<open>Properties of resolution and instantiation\<close>




text \<open>
  C2. For every relation field whose merged value is a number, or an array whose
  first element is a number, the callback of the constructor assigns \<^verbatim>\<open>null\<close>,
  whatever \<^verbatim>\<open>new model(...)\<close> would do; and the instance that the constructor
  returns holds \<^verbatim>\<open>null\<close> under that field.
\<close>

theorem relation_number_is_null:
  assumes rel: "isRelation field"
    and num: "(\<exists>k. valueOf field = VNum k) \<or> (\<exists>k rest. valueOf field = VArr (VNum k # rest))"
  shows "initializeField new W m key field = Inr VNull \<and>
    (\<forall>n c data I. (key, field) \<in> set (mergeFields (fields' (classes W c)) data) \<and>
        distinct (map fst (fields' (classes W c))) \<and> instantiate n W c data = Inr I \<longrightarrow>
        (\<exists>this. I = VInst c this \<and> map_of this key = Some VNull))"
proof -
  have step: "initializeField new W m key field = Inr VNull" for new m
    using rel num by (cases field) (auto simp: initializeField_def isRelation_def)
  have "\<exists>this. I = VInst c this \<and> map_of this key = Some VNull"
    if mem: "(key, field) \<in> set (mergeFields (fields' (classes W c)) data)"
      and dist: "distinct (map fst (fields' (classes W c)))"
      and inst: "instantiate n W c data = Inr I" for n c data I
  proof -
    from instantiate_props [OF inst dist] obtain n' ps where
      I: "I = VInst c ps" and keys: "map fst ps = map fst (fields' (classes W c))"
      and all: "list_all2 (\<lambda>(k, a) (k', v). initializeField (instantiate n' W) W (classes W c) k a = Inr v)
         (mergeFields (fields' (classes W c)) data) ps"
      by blast
    have "initializeField (instantiate n' W) W (classes W c) key field = Inr (getprop ps key) \<and>
        map_of ps key = Some (getprop ps key)"
      by (rule list_all2_getprop [OF all _ _ mem]) (simp_all add: keys dist)
    with step I show ?thesis by simp
  qed
  with step show ?thesis by blast
qed

lemma user_5:
  "instantiate (Suc 0) blog 0
     (VObj [(''id'', VNum 1), (''posts'', VArr [VNum 10, VNum 11]), (''profile'', VNum 5)])
    = Inr (VInst 0 [(''id'', VNum 1), (''name'', VStr ''''), (''posts'', VNull), (''profile'', VNull)])"
  by (simp add: blog_simps mergeFields_plain mergedField_def initializeField_def setprop_def)

theorem relation_number_is_null_witness:
  "isRelation (HasOne (ModelName ''Profile'') ''userId'' (VNum 5) False) \<and>
   isRelation (HasMany (ModelRef 1) ''userId'' (VArr [VNum 10, VNum 11]) False) \<and>
   (\<exists>this. instantiate (Suc 0) blog 0
        (VObj [(''id'', VNum 1), (''posts'', VArr [VNum 10, VNum 11]), (''profile'', VNum 5)])
          = Inr (VInst 0 this) \<and>
      map_of this ''profile'' = Some VNull \<and> map_of this ''posts'' = Some VNull)"
proof -
  let ?data = "VObj [(''id'', VNum 1), (''posts'', VArr [VNum 10, VNum 11]), (''profile'', VNum 5)]"
  let ?one = "HasOne (ModelName ''Profile'') ''userId'' (VNum 5) False"
  let ?many = "HasMany (ModelRef 1) ''userId'' (VArr [VNum 10, VNum 11]) False"
  have rel1: "isRelation ?one" and rel2: "isRelation ?many"
    by (simp_all add: isRelation_def)
  have num1: "(\<exists>k. valueOf ?one = VNum k) \<or> (\<exists>k rest. valueOf ?one = VArr (VNum k # rest))"
    by simp
  have num2: "(\<exists>k. valueOf ?many = VNum k) \<or> (\<exists>k rest. valueOf ?many = VArr (VNum k # rest))"
    by simp
  have mem1: "(''profile'', ?one) \<in> set (mergeFields (fields' (classes blog 0)) ?data)"
    and mem2: "(''posts'', ?many) \<in> set (mergeFields (fields' (classes blog 0)) ?data)"
    by (simp_all add: blog_simps mergeFields_plain mergedField_def)
  have dist: "distinct (map fst (fields' (classes blog 0)))"
    by (simp add: blog_simps)
  from relation_number_is_null [OF rel1 num1, of "instantiate 0 blog" blog User "''profile''"]
    mem1 dist user_5
  have p1: "\<exists>this. VInst 0 [(''id'', VNum 1), (''name'', VStr ''''), (''posts'', VNull), (''profile'', VNull)]
      = VInst 0 this \<and> map_of this ''profile'' = Some VNull"
    by blast
  from relation_number_is_null [OF rel2 num2, of "instantiate 0 blog" blog User "''posts''"]
    mem2 dist user_5
  have p2: "\<exists>this. VInst 0 [(''id'', VNum 1), (''name'', VStr ''''), (''posts'', VNull), (''profile'', VNull)]
      = VInst 0 this \<and> map_of this ''posts'' = Some VNull"
    by blast
  from p1 p2 rel1 rel2 user_5 show ?thesis by simp
qed

text \<open>
  The same holds of whatever value has a number under the key \<^verbatim>\<open>0\<close>: the test is
  \<^verbatim>\<open>_.isNumber(field.value[0])\<close>.
\<close>

lemma relation_index0_number_is_null:
  assumes "isRelation field"
    and "isNumber (valueOf field) \<or> (\<exists>k. index0 (valueOf field) = Inr (VNum k))"
  shows "initializeField new W m key field = Inr VNull"
  using assms by (cases field) (auto simp: initializeField_def isRelation_def)

lemma initializeField_null: "valueOf field = VNull \<Longrightarrow> initializeField new W m key field = Inr VNull"
  by (simp add: initializeField_def)





text \<open>The keys of the instance, as a set, without any assumption on the field names.\<close>

lemma initializeFields_keys:
  "initializeFields new W m fs this = Inr ps \<Longrightarrow> fst ` set ps = fst ` set this \<union> fst ` set fs"
proof (induction fs arbitrary: this)
  case Nil
  then show ?case by simp
next
  case (Cons p fs)
  obtain k a where p: "p = (k, a)" by (cases p)
  from Cons.prems obtain v where
    rest: "initializeFields new W m fs (setprop this k v) = Inr ps"
    by (auto simp: p split: sum.splits)
  from Cons.IH [OF rest] show ?case by (auto simp: p keyset_setprop)
qed

lemma instantiate_keys:
  assumes "instantiate n W c data = Inr I"
  shows "\<exists>this. I = VInst c this \<and> fst ` set this = fst ` set (fields' (classes W c))"
proof -
  from assms obtain n' where n: "n = Suc n'" by (cases n) auto
  from assms obtain ps where
    ps: "initializeFields (instantiate n' W) W (classes W c)
           (mergeFields (fields' (classes W c)) data) [] = Inr ps"
    and I: "I = VInst c ps"
    unfolding n instantiate_Suc by (auto split: sum.splits)
  have "fst ` set (mergeFields (fields' (classes W c)) data) = fst ` set (fields' (classes W c))"
    using keys_mergeFields [of "fields' (classes W c)" data] by (metis set_map)
  with initializeFields_keys [OF ps] I show ?thesis by simp
qed

lemma instantiate_ignores_unknown:
  assumes "isLength (getprop ps ''length'') \<Longrightarrow> ''length'' \<in> fst ` set (fields' (classes W c))"
  shows "instantiate n W c (VObj (filter (\<lambda>(key, v). key \<in> fst ` set (fields' (classes W c))) ps))
     = instantiate n W c (VObj ps)"
  using mergeFields_ignores_unknown [OF assms] by (cases n) simp_all

text \<open>A class of attributes only: the constructor returns on every payload.\<close>

lemma initializeFields_attrs_return:
  "\<forall>(k, a) \<in> set fs. type a = TypeAttr \<Longrightarrow> \<exists>ps. initializeFields new W m fs this = Inr ps"
proof (induction fs arbitrary: this)
  case Nil
  then show ?case by simp
next
  case (Cons p fs)
  obtain k a where p: "p = (k, a)" by (cases p)
  from Cons.prems have "type a = TypeAttr" by (simp add: p)
  then obtain v mu where a: "a = Attr v mu" by (cases a) auto
  have "\<exists>w. initializeField new W m k a = Inr w"
    by (simp add: a initializeField_def split: option.splits)
  then obtain w where w: "initializeField new W m k a = Inr w" by blast
  from Cons.prems have "\<forall>(k, a) \<in> set fs. type a = TypeAttr" by simp
  from Cons.IH [OF this, of "setprop this k w"] show ?case by (simp add: p w)
qed

lemma instantiate_attrs_return:
  assumes "\<forall>(k, a) \<in> set (fields' (classes W c)). type a = TypeAttr"
  shows "\<exists>this. instantiate (Suc n) W c data = Inr (VInst c this)"
proof -
  have "\<forall>(k, a) \<in> set (mergeFields (fields' (classes W c)) data). type a = TypeAttr"
    using assms by (auto simp: mergeFields_eq mergedField_def split: option.splits)
  from initializeFields_attrs_return [OF this] obtain ps where
    "initializeFields (instantiate n W) W (classes W c)
        (mergeFields (fields' (classes W c)) data) [] = Inr ps"
    by blast
  then show ?thesis by simp
qed

text \<open>
  Whenever the constructor returns, the instance is of the class and its
  properties are exactly the declared fields (in their order, the names being
  unique); and the keys of a payload that name no declared field change nothing,
  unless one of them is a \<^verbatim>\<open>length\<close> that makes the payload array-like.
\<close>

lemma instance_fields:
  assumes inst: "instantiate n W c data = Inr I"
  shows "\<exists>this. I = VInst c this \<and> fst ` set this = fst ` set (fields' (classes W c)) \<and>
         (distinct (map fst (fields' (classes W c))) \<longrightarrow>
            map fst this = map fst (fields' (classes W c)))"
proof -
  from instantiate_keys [OF inst] obtain this where
    t: "I = VInst c this" "fst ` set this = fst ` set (fields' (classes W c))"
    by blast
  have "map fst this = map fst (fields' (classes W c))"
    if "distinct (map fst (fields' (classes W c)))"
    using instantiate_props [OF inst that] t(1) by auto
  with t show ?thesis by blast
qed

lemma user_ada:
  "instantiate (Suc (Suc 0)) blog 0
     (VObj [(''id'', VNum 1), (''name'', VStr ''Ada''),
            (''posts'', VArr [VObj [(''id'', VNum 10), (''title'', VStr ''Hi''), (''userId'', VNum 1)]])])
   = Inr (VInst 0 [(''id'', VNum 1), (''name'', VStr ''Ada''),
        (''posts'', VArr [VInst 1 [(''id'', VNum 10), (''title'', VStr ''Hi''), (''userId'', VNum 1),
                                  (''author'', VNull)]]),
        (''profile'', VNull)])"
  by (simp add: blog_simps mergeFields_plain mergedField_def initializeField_def setprop_def
      resolveRelation_def)

lemma user_ada_likes:
  "instantiate (Suc (Suc 0)) blog 0
     (VObj [(''id'', VNum 1), (''name'', VStr ''Ada''), (''likes'', VNum 3),
            (''posts'', VArr [VObj [(''id'', VNum 10), (''title'', VStr ''Hi''), (''userId'', VNum 1)]])])
   = Inr (VInst 0 [(''id'', VNum 1), (''name'', VStr ''Ada''),
        (''posts'', VArr [VInst 1 [(''id'', VNum 10), (''title'', VStr ''Hi''), (''userId'', VNum 1),
                                  (''author'', VNull)]]),
        (''profile'', VNull)])"
  using instantiate_ignores_unknown [of
      "[(''id'', VNum 1), (''name'', VStr ''Ada''), (''likes'', VNum 3),
        (''posts'', VArr [VObj [(''id'', VNum 10), (''title'', VStr ''Hi''), (''userId'', VNum 1)]])]"
      blog 0 "Suc (Suc 0)"]
    user_ada
  by (simp add: blog_simps getprop_def)

text \<open>
  C4. The claim is that the instance has exactly the declared fields and that
  every key of the payload that names no declared field is ignored by the merge.
  The constructor does not ignore the key \<^verbatim>\<open>length\<close>: \<^verbatim>\<open>User\<close> declares no field of
  that name, the payload \<^verbatim>\<open>{ id: 1, name: 'Ada' }\<close> gives an instance with \<^verbatim>\<open>id: 1\<close> and
  \<^verbatim>\<open>name: 'Ada'\<close>, and the same payload with \<^verbatim>\<open>length: 3\<close> added is walked as an array
  by \<^verbatim>\<open>_.forEach\<close>, so that none of its keys is merged and the instance holds the
  declared values \<^verbatim>\<open>id: null\<close> and \<^verbatim>\<open>name: ''\<close>.
\<close>

theorem payload_with_length_is_not_merged:
  "''length'' \<notin> fst ` set (fields' (classes blog 0)) \<and>
   instantiate (Suc 0) blog 0 (VObj [(''id'', VNum 1), (''name'', VStr ''Ada'')])
     = Inr (VInst 0 [(''id'', VNum 1), (''name'', VStr ''Ada''), (''posts'', VNull), (''profile'', VNull)]) \<and>
   instantiate (Suc 0) blog 0 (VObj [(''id'', VNum 1), (''name'', VStr ''Ada''), (''length'', VNum 3)])
     = Inr (VInst 0 [(''id'', VNull), (''name'', VStr ''''), (''posts'', VNull), (''profile'', VNull)])"
proof -
  have "mergeFields (fields' User) (VObj [(''id'', VNum 1), (''name'', VStr ''Ada''), (''length'', VNum 3)])
      = fields' User"
    by (rule mergeFields_arrayLike) (simp add: getprop_def isLength_def)
  then show ?thesis
    by (simp add: blog_simps mergeFields_plain mergedField_def initializeField_def setprop_def)
qed

section \<open>Properties of serialization, and the round trip\<close>


lemma toJsonFields_Cons:
  "toJsonFields W this ((key, a) # rest) =
     (case jsonOf W (type a) (getprop this key) of
        Inl err \<Rightarrow> Inl err
      | Inr j \<Rightarrow>
          (case toJsonFields W this rest of
             Inl err \<Rightarrow> Inl err
           | Inr js \<Rightarrow> Inr ((key, j) # js)))"
  by (simp add: jsonOf_def)

lemma toJsonFields_props:
  "toJsonFields W this fs = Inr js \<Longrightarrow>
   map fst js = map fst fs \<and>
   list_all2 (\<lambda>(k, a) (k', j). jsonOf W (type a) (getprop this k) = Inr j) fs js"
proof (induction fs arbitrary: js)
  case Nil
  then show ?case by simp
next
  case (Cons p fs)
  obtain k a where p: "p = (k, a)" by (cases p)
  from Cons.prems obtain j js' where j: "jsonOf W (type a) (getprop this k) = Inr j"
    and rest: "toJsonFields W this fs = Inr js'" and js: "js = (k, j) # js'"
    unfolding p toJsonFields_Cons by (auto split: sum.splits)
  from Cons.IH [OF rest] show ?case by (simp add: js p j)
qed

lemma toJsonList_Cons_Inr:
  "toJsonList W (x # xs) = Inr zs \<longleftrightarrow>
     (\<exists>y ys. zs = y # ys \<and> toJson W x = Inr y \<and> toJsonList W xs = Inr ys)"
  by (auto split: sum.splits)

lemma toJsonList_props:
  "toJsonList W xs = Inr ys \<longleftrightarrow> list_all2 (\<lambda>x y. toJson W x = Inr y) xs ys"
proof (induction xs arbitrary: ys)
  case Nil
  then show ?case by auto
next
  case (Cons x xs)
  show ?case
    unfolding toJsonList_Cons_Inr by (auto simp: Cons.IH list_all2_Cons1)
qed

lemma mapE_Cons_Inr:
  "mapE f (x # xs) = Inr zs \<longleftrightarrow>
     (\<exists>y ys. zs = y # ys \<and> f x = Inr y \<and> mapE f xs = Inr ys)"
  by (auto split: sum.splits)

lemma mapE_props:
  "mapE f xs = Inr ys \<longleftrightarrow> list_all2 (\<lambda>x y. f x = Inr y) xs ys"
proof (induction xs arbitrary: ys)
  case Nil
  then show ?case by auto
next
  case (Cons x xs)
  show ?case
    unfolding mapE_Cons_Inr by (auto simp: Cons.IH list_all2_Cons1)
qed

lemma toJson_VInst:
  "toJson W (VInst c this) = Inr J \<longleftrightarrow>
     (\<exists>js. J = VObj js \<and> toJsonFields W this (fields' (classes W c)) = Inr js)"
  by (auto split: sum.splits)

lemma initializeField_Attr_eq:
  "initializeField new W m key (Attr v mu) =
     (if v = VNull then Inr VNull
      else Inr (case fieldMutator m key mu of Some f \<Rightarrow> f v | None \<Rightarrow> v))"
  by (simp add: initializeField_def fieldMutator_def split: option.splits)

lemma initializeField_relation:
  "isRelation a \<Longrightarrow>
   initializeField new W m key a =
     (if valueOf a = VNull then Inr VNull
      else if isNumber (valueOf a) then Inr VNull
      else
        (case index0 (valueOf a) of
           Inl err \<Rightarrow> Inl err
         | Inr v0 \<Rightarrow>
             if isNumber v0 then Inr VNull
             else
               (case resolveRelation W m a of
                  Inl err \<Rightarrow> Inl err
                | Inr c \<Rightarrow>
                    if \<not> truthy (valueOf a) then Inr VNull
                    else if type a = TypeHasOne \<or> type a = TypeBelongsTo then new c (valueOf a)
                    else
                      (case valueOf a of
                         VArr xs \<Rightarrow>
                           (case mapE (new c) xs of
                              Inl err \<Rightarrow> Inl err
                            | Inr ys \<Rightarrow> Inr (VArr ys))
                       | _ \<Rightarrow> Inl TypeError))))"
  by (cases a) (auto simp: initializeField_def isRelation_def split: sum.splits)


lemma isRelation_setValue [simp]: "isRelation (setValue a v) = isRelation a"
  by (simp add: isRelation_def)




lemma initializeField_relation_Inr:
  assumes rel: "isRelation a"
    and init: "initializeField new W m key a = Inr p"
    and notnull: "p \<noteq> VNull"
  shows "\<exists>v0 c. index0 (valueOf a) = Inr v0 \<and> resolveRelation W m a = Inr c \<and>
      truthy (valueOf a) \<and>
      (if type a = TypeHasOne \<or> type a = TypeBelongsTo then new c (valueOf a)
       else (case valueOf a of
               VArr xs \<Rightarrow> (case mapE (new c) xs of Inl err \<Rightarrow> Inl err | Inr ys \<Rightarrow> Inr (VArr ys))
             | _ \<Rightarrow> Inl TypeError)) = Inr p"
proof -
  note e = init [unfolded initializeField_relation [OF rel]]
  have 1: "valueOf a \<noteq> VNull" using e notnull by (cases "valueOf a = VNull") simp_all
  have 2: "\<not> isNumber (valueOf a)" using e notnull 1 by (cases "isNumber (valueOf a)") simp_all
  obtain v0 where 3: "index0 (valueOf a) = Inr v0"
    using e 1 2 by (cases "index0 (valueOf a)") simp_all
  have 4: "\<not> isNumber v0" using e notnull 1 2 3 by (cases "isNumber v0") simp_all
  obtain c where 5: "resolveRelation W m a = Inr c"
    using e 1 2 3 4 by (cases "resolveRelation W m a") simp_all
  have 6: "truthy (valueOf a)" using e notnull 1 2 3 4 5 by (cases "truthy (valueOf a)") simp_all
  from e 1 2 3 4 5 6 show ?thesis by simp
qed


lemma mergeFields_eq2:
  "mergeFields fs data =
     map (\<lambda>(k, a). (k, mergedField (if truthy data then entries data else []) k a)) fs"
  by (simp add: mergeFields_eq)



lemma setValue_mergedField [simp]: "setValue (mergedField es k a) j = setValue a j"
  by (simp add: mergedField_def split: option.splits)

lemma type_mergedField [simp]: "type (mergedField es k a) = type a"
  by (simp add: mergedField_def split: option.splits)

lemma polymorphic_mergedField [simp]: "polymorphic (mergedField es k a) = polymorphic a"
  by (simp add: mergedField_def split: option.splits)






lemma toJsonFields_build2:
  "\<forall>(k, a) \<in> set fs. \<exists>j. jsonOf W (type a) (getprop this k) = Inr j \<Longrightarrow>
   toJsonFields W this fs =
     Inr (map (\<lambda>(k, a). (k, projr (jsonOf W (type a) (getprop this k)))) fs)"
proof (induction fs)
  case Nil
  then show ?case by simp
next
  case (Cons p fs)
  obtain k a where p: "p = (k, a)" by (cases p)
  from Cons.prems obtain j where "jsonOf W (type a) (getprop this k) = Inr j" by (auto simp: p)
  moreover from Cons.prems have "\<forall>(k, a) \<in> set fs. \<exists>j. jsonOf W (type a) (getprop this k) = Inr j"
    by simp
  ultimately show ?case using Cons.IH unfolding p toJsonFields_Cons by simp
qed




text \<open>
  \<^verbatim>\<open>$toJson\<close> returns on every instance that the constructor builds (the field
  names of every class being unique).
\<close>

lemma toJsonList_returns:
  "\<forall>y \<in> set ys. \<exists>j. toJson W y = Inr j \<Longrightarrow> \<exists>zs. toJsonList W ys = Inr zs"
proof (induction ys)
  case Nil
  then show ?case by simp
next
  case (Cons y ys)
  from Cons.prems obtain j where "toJson W y = Inr j" by auto
  moreover from Cons.prems Cons.IH obtain zs where "toJsonList W ys = Inr zs" by auto
  ultimately show ?case by simp
qed

lemma field_json_returns:
  assumes init: "initializeField new W m key a = Inr p"
    and N: "\<And>c' w I'. new c' w = Inr I' \<Longrightarrow> \<exists>j. toJson W I' = Inr j"
  shows "\<exists>j. jsonOf W (type a) p = Inr j"
proof (cases "p = VNull")
  case True
  then show ?thesis by (simp add: jsonOf_def)
next
  case notnull: False
  show ?thesis
  proof (cases "isRelation a")
    case False
    then have "type a = TypeAttr" by (simp add: isRelation_def)
    then show ?thesis by (simp add: jsonOf_def)
  next
    case rel: True
    from initializeField_relation_Inr [OF rel init notnull] obtain v0 c where
      res: "(if type a = TypeHasOne \<or> type a = TypeBelongsTo then new c (valueOf a)
             else (case valueOf a of
                     VArr xs \<Rightarrow> (case mapE (new c) xs of Inl err \<Rightarrow> Inl err | Inr ys \<Rightarrow> Inr (VArr ys))
                   | _ \<Rightarrow> Inl TypeError)) = Inr p"
      by blast
    show ?thesis
    proof (cases "type a = TypeHasOne \<or> type a = TypeBelongsTo")
      case True
      with res have "new c (valueOf a) = Inr p" by simp
      from N [OF this] True show ?thesis by (auto simp: jsonOf_def)
    next
      case many: False
      with res obtain xs ys where ys: "mapE (new c) xs = Inr ys" and p: "p = VArr ys"
        by (auto split: val.splits sum.splits)
      from ys have all: "list_all2 (\<lambda>x y. new c x = Inr y) xs ys" by (simp add: mapE_props)
      have "\<forall>y \<in> set ys. \<exists>j. toJson W y = Inr j"
      proof
        fix y assume "y \<in> set ys"
        then obtain i where i: "i < length ys" "ys ! i = y" by (auto simp: in_set_conv_nth)
        with all have "new c (xs ! i) = Inr y" by (simp add: list_all2_conv_all_nth)
        from N [OF this] show "\<exists>j. toJson W y = Inr j" .
      qed
      from toJsonList_returns [OF this] obtain zs where "toJsonList W ys = Inr zs" ..
      then show ?thesis using many by (simp add: jsonOf_def p)
    qed
  qed
qed

lemma toJson_returns:
  assumes dist: "\<forall>c. distinct (map fst (fields' (classes W c)))"
  shows "instantiate n W c d = Inr I \<Longrightarrow> \<exists>J. toJson W I = Inr J"
proof (induction n arbitrary: c d I)
  case 0
  then show ?case by simp
next
  case (Suc n)
  let ?m = "classes W c"
  let ?fs = "fields' ?m"
  from dist have d: "distinct (map fst ?fs)" by simp
  from instantiate_props [OF Suc.prems d] obtain ps where
    I: "I = VInst c ps" and keys: "map fst ps = map fst ?fs"
    and all: "list_all2 (\<lambda>(k, a) (k', v). initializeField (instantiate n W) W ?m k a = Inr v)
       (mergeFields ?fs d) ps"
    by auto
  have "\<forall>(k, a) \<in> set ?fs. \<exists>j. jsonOf W (type a) (getprop ps k) = Inr j"
  proof (clarify)
    fix k a assume mem: "(k, a) \<in> set ?fs"
    let ?a = "mergedField (if truthy d then entries d else []) k a"
    have mm: "(k, ?a) \<in> set (mergeFields ?fs d)"
      using mem unfolding mergeFields_eq2 by force
    have init: "initializeField (instantiate n W) W ?m k ?a = Inr (getprop ps k)"
      using list_all2_getprop [OF all _ _ mm] keys d by simp
    from field_json_returns [OF init Suc.IH]
    show "\<exists>j. jsonOf W (type a) (getprop ps k) = Inr j" by simp
  qed
  from toJsonFields_build2 [OF this] show ?case by (simp add: I)
qed

lemma press_simps:
  "classes press c = (if c = 0 then User else if c = 1 then Post else Profile)"
  "relation press User ''User'' = Inr 0"
  "relation press User ''Post'' = Inr 1"
  "relation press User ''Profile'' = Inr 2"
  "relation press Post ''User'' = Inr 0"
  by (simp_all add: press_def relation_def User_def Post_def)


lemma ada_json:
  "toJson press (VInst 0 [(''id'', VNum 1), (''name'', VStr ''Ada''),
        (''posts'', VArr [VInst 1 [(''id'', VNum 10), (''title'', VStr ''Hi''), (''userId'', VNum 1),
                                  (''author'', VNull)]]),
        (''profile'', VInst 2 [(''id'', VNum 7), (''age'', VNum 36), (''visits'', VNum 0),
                              (''bio'', VStr '''')])])
   = Inr (VObj [(''id'', VNum 1), (''name'', VStr ''Ada''),
        (''posts'', VArr [VObj [(''id'', VNum 10), (''title'', VStr ''Hi''), (''userId'', VNum 1),
                                  (''author'', VNull)]]),
        (''profile'', VObj [(''id'', VNum 7), (''age'', VNum 36), (''visits'', VNum 0),
                              (''bio'', VStr '''')])])"
  by (simp add: press_simps blog_simps getprop_def)

text \<open>
  C7. Let \<^verbatim>\<open>$toJson\<close> return for an instance of the class \<open>c\<close>. The result is a
  plain object with the declared fields as keys, in their order, and for every
  declared field \<open>key\<close> of descriptor \<open>a\<close> its value is: the property itself when
  the property is falsy; the serialization of the property for a has-one or
  belongs-to field; the array of the serializations of the elements for a
  has-many field; and the property itself for an attribute and for a
  has-many-by field.
\<close>

theorem toJson_per_field:
  assumes json: "toJson W (VInst c this) = Inr J"
    and dist: "distinct (map fst (fields' (classes W c)))"
    and mem: "(key, a) \<in> set (fields' (classes W c))"
  shows "\<exists>js. J = VObj js \<and> map fst js = map fst (fields' (classes W c)) \<and>
      map_of js key = Some (getprop js key) \<and>
      (\<not> truthy (getprop this key) \<longrightarrow> getprop js key = getprop this key) \<and>
      (truthy (getprop this key) \<and> (type a = TypeHasOne \<or> type a = TypeBelongsTo) \<longrightarrow>
         toJson W (getprop this key) = Inr (getprop js key)) \<and>
      (truthy (getprop this key) \<and> type a = TypeHasMany \<longrightarrow>
         (\<exists>xs ys. getprop this key = VArr xs \<and> getprop js key = VArr ys \<and>
            list_all2 (\<lambda>x y. toJson W x = Inr y) xs ys)) \<and>
      (truthy (getprop this key) \<and> (type a = TypeAttr \<or> type a = TypeHasManyBy) \<longrightarrow>
         getprop js key = getprop this key)"
proof -
  from json [unfolded toJson_VInst] obtain js where J: "J = VObj js"
    and js: "toJsonFields W this (fields' (classes W c)) = Inr js"
    by blast
  from toJsonFields_props [OF js] have keys: "map fst js = map fst (fields' (classes W c))"
    and all: "list_all2 (\<lambda>(k, a) (k', j). jsonOf W (type a) (getprop this k) = Inr j)
        (fields' (classes W c)) js"
    by simp_all
  from list_all2_getprop [OF all keys dist mem]
  have j: "jsonOf W (type a) (getprop this key) = Inr (getprop js key)"
    and present: "map_of js key = Some (getprop js key)"
    by simp_all
  have falsy: "getprop js key = getprop this key" if "\<not> truthy (getprop this key)"
    using j that by (simp add: jsonOf_def)
  have one: "toJson W (getprop this key) = Inr (getprop js key)"
    if "truthy (getprop this key)" "type a = TypeHasOne \<or> type a = TypeBelongsTo"
    using j that by (auto simp: jsonOf_def)
  have many: "\<exists>xs ys. getprop this key = VArr xs \<and> getprop js key = VArr ys \<and>
      list_all2 (\<lambda>x y. toJson W x = Inr y) xs ys"
    if "truthy (getprop this key)" "type a = TypeHasMany"
    using j that
    by (auto simp: jsonOf_def toJsonList_props split: val.splits sum.splits) (metis)
  have plain: "getprop js key = getprop this key"
    if "truthy (getprop this key)" "type a = TypeAttr \<or> type a = TypeHasManyBy"
    using j that by (auto simp: jsonOf_def)
  from J keys present falsy one many plain show ?thesis by blast
qed

theorem toJson_per_field_witness:
  "\<exists>js. toJson press (VInst 0 [(''id'', VNum 1), (''name'', VStr ''Ada''),
        (''posts'', VArr [VInst 1 [(''id'', VNum 10), (''title'', VStr ''Hi''), (''userId'', VNum 1),
                                  (''author'', VNull)]]),
        (''profile'', VInst 2 [(''id'', VNum 7), (''age'', VNum 36), (''visits'', VNum 0),
                              (''bio'', VStr '''')])]) = Inr (VObj js) \<and>
     getprop js ''name'' = VStr ''Ada'' \<and>
     getprop js ''posts'' = VArr [VObj [(''id'', VNum 10), (''title'', VStr ''Hi''), (''userId'', VNum 1),
                                  (''author'', VNull)]] \<and>
     toJson press (VInst 2 [(''id'', VNum 7), (''age'', VNum 36), (''visits'', VNum 0),
                              (''bio'', VStr '''')]) = Inr (getprop js ''profile'')"
proof -
  let ?this = "[(''id'', VNum 1), (''name'', VStr ''Ada''),
        (''posts'', VArr [VInst 1 [(''id'', VNum 10), (''title'', VStr ''Hi''), (''userId'', VNum 1),
                                  (''author'', VNull)]]),
        (''profile'', VInst 2 [(''id'', VNum 7), (''age'', VNum 36), (''visits'', VNum 0),
                              (''bio'', VStr '''')])]"
  have dist: "distinct (map fst (fields' (classes press 0)))"
    by (simp add: press_simps blog_simps)
  have mem: "(''profile'', HasOne (ModelName ''Profile'') ''userId'' VNull False)
      \<in> set (fields' (classes press 0))"
    by (simp add: press_simps blog_simps)
  from toJson_per_field [OF ada_json dist mem] ada_json
  show ?thesis by (simp add: getprop_def)
qed







text \<open>
  The other conditions of the round trip are needed as well. A nested instance
  with a field named \<^verbatim>\<open>0\<close> that holds a number serializes to an object that the
  constructor takes for a bare id; the serialization of the target of a
  polymorphic relation carries no discriminator unless the target declares one;
  and the serialization of an instance with a field named \<^verbatim>\<open>length\<close> that holds a
  valid array length is walked by index, so that none of its keys is merged.
\<close>

lemma field_named_0_breaks_round_trip:
  "instantiate (Suc (Suc 0)) shelf 0 (VObj [(''item'', VObj [])])
     = Inr (VInst 0 [(''item'', VInst 1 [(''0'', VNum 7)])]) \<and>
   toJson shelf (VInst 0 [(''item'', VInst 1 [(''0'', VNum 7)])])
     = Inr (VObj [(''item'', VObj [(''0'', VNum 7)])]) \<and>
   instantiate (Suc (Suc 0)) shelf 0 (VObj [(''item'', VObj [(''0'', VNum 7)])])
     = Inr (VInst 0 [(''item'', VNull)])"
  by (simp add: shelf_def Holder_def Slot_def attr_def hasOne_def mergeFields_plain mergedField_def
      initializeField_def setprop_def getprop_def resolveRelation_def)

lemma polymorphic_relation_breaks_round_trip:
  "instantiate (Suc (Suc 0)) forum 0
       (VObj [(''id'', VNum 5), (''target'', VObj [(''type'', VStr ''Post''), (''id'', VNum 10)])])
     = Inr (VInst 0 [(''id'', VNum 5),
         (''target'', VInst 1 [(''id'', VNum 10), (''title'', VStr ''''), (''userId'', VNull),
                              (''author'', VNull)])]) \<and>
   toJson forum (VInst 0 [(''id'', VNum 5),
         (''target'', VInst 1 [(''id'', VNum 10), (''title'', VStr ''''), (''userId'', VNull),
                              (''author'', VNull)])])
     = Inr (VObj [(''id'', VNum 5),
         (''target'', VObj [(''id'', VNum 10), (''title'', VStr ''''), (''userId'', VNull),
                           (''author'', VNull)])]) \<and>
   instantiate (Suc (Suc 0)) forum 0
       (VObj [(''id'', VNum 5),
         (''target'', VObj [(''id'', VNum 10), (''title'', VStr ''''), (''userId'', VNull),
                           (''author'', VNull)])])
     = Inl UnknownEntity"
  by (simp add: forum_def Comment_def blog_simps attr_def hasOne_def mergeFields_plain mergedField_def
      initializeField_def setprop_def getprop_def resolveRelation_def relation_def)

lemma field_named_length_breaks_round_trip:
  "instantiate (Suc 0) album 0 (VObj [(''name'', VStr ''x'')])
     = Inr (VInst 0 [(''length'', VNum 3), (''name'', VStr ''x'')]) \<and>
   toJson album (VInst 0 [(''length'', VNum 3), (''name'', VStr ''x'')])
     = Inr (VObj [(''length'', VNum 3), (''name'', VStr ''x'')]) \<and>
   instantiate (Suc 0) album 0 (VObj [(''length'', VNum 3), (''name'', VStr ''x'')])
     = Inr (VInst 0 [(''length'', VNum 3), (''name'', VStr '''')])"
proof -
  have "mergeFields (fields' Track) (VObj [(''length'', VNum 3), (''name'', VStr ''x'')]) = fields' Track"
    by (rule mergeFields_arrayLike) (simp add: getprop_def isLength_def)
  then show ?thesis
    by (simp add: album_def Track_def attr_def mergeFields_plain mergedField_def
        initializeField_def setprop_def getprop_def)
qed

section \<open>The depth bound of the constructor\<close>


lemma mapE_no_overflow:
  "\<forall>x \<in> set xs. f x \<noteq> Inl StackOverflow \<Longrightarrow> mapE f xs \<noteq> Inl StackOverflow"
proof (induction xs)
  case Nil
  then show ?case by simp
next
  case (Cons x xs)
  then show ?case by (auto split: sum.splits)
qed

lemma propType_no_overflow: "propType v \<noteq> Inl StackOverflow"
  by (cases v) simp_all

lemma resolveRelation_no_overflow: "resolveRelation W m a \<noteq> Inl StackOverflow"
  using propType_no_overflow [of "valueOf a"]
  by (auto simp: resolveRelation_def relation_def split: sum.splits val.splits option.splits target.splits)

lemma index0_no_overflow: "index0 v \<noteq> Inl StackOverflow"
  by (cases v) simp_all

lemma initializeField_no_overflow:
  assumes one: "\<And>c. new c (valueOf a) \<noteq> Inl StackOverflow"
    and many: "\<And>c xs x. valueOf a = VArr xs \<Longrightarrow> x \<in> set xs \<Longrightarrow> new c x \<noteq> Inl StackOverflow"
  shows "initializeField new W m key a \<noteq> Inl StackOverflow"
proof (cases "isRelation a")
  case False
  then obtain v mu where "a = Attr v mu" by (cases a) (auto simp: isRelation_def)
  then show ?thesis by (simp add: initializeField_Attr_eq)
next
  case True
  have arr: "mapE (new c) xs \<noteq> Inl StackOverflow" if "valueOf a = VArr xs" for c xs
    using many [OF that] by (intro mapE_no_overflow) blast
  show ?thesis
    unfolding initializeField_relation [OF True]
    using one arr resolveRelation_no_overflow [of W m a] index0_no_overflow [of "valueOf a"]
    by (auto split: sum.splits val.splits)
qed

lemma initializeFields_no_overflow:
  "\<forall>(k, a) \<in> set fs. initializeField new W m k a \<noteq> Inl StackOverflow \<Longrightarrow>
   initializeFields new W m fs this \<noteq> Inl StackOverflow"
proof (induction fs arbitrary: this)
  case Nil
  then show ?case by simp
next
  case (Cons p fs)
  obtain k a where p: "p = (k, a)" by (cases p)
  from Cons.prems have "\<forall>(k, a) \<in> set fs. initializeField new W m k a \<noteq> Inl StackOverflow"
    by simp
  from Cons.IH [OF this] Cons.prems show ?case
    by (auto simp: p split: sum.splits)
qed

lemma size_entry: "(k, v) \<in> set ps \<Longrightarrow> size v < Suc (size_list (size_prod (\<lambda>x. 0) size) ps)"
  by (induction ps) auto

lemma size_entries: "(k, v) \<in> set (entries d) \<Longrightarrow> size v < size d"
  using size_entry [of k v] entries_subset [of d] by (cases d) auto

lemma size_element: "x \<in> set xs \<Longrightarrow> size x < Suc (size_list size xs)"
  by (induction xs) auto

lemma mergedField_value:
  "valueOf (mergedField es k a) = valueOf a \<or> (k, valueOf (mergedField es k a)) \<in> set es"
proof (cases "map_of (rev es) k")
  case None
  then show ?thesis by (simp add: mergedField_def)
next
  case (Some v)
  then have "(k, v) \<in> set es" by (auto dest: map_of_SomeD)
  with Some show ?thesis by (simp add: mergedField_def)
qed

lemma isRelation_mergedField [simp]: "isRelation (mergedField es k a) = isRelation a"
  by (simp add: isRelation_def)

text \<open>
  On a program declared through the factories, the constructor never exhausts a
  depth bound above the size of the payload.
\<close>

lemma instantiate_enough_fuel:
  assumes fb: "factoryBuilt W"
  shows "size d < n \<Longrightarrow> instantiate n W c d \<noteq> Inl StackOverflow"
proof (induction n arbitrary: c d)
  case 0
  then show ?case by simp
next
  case (Suc n)
  let ?m = "classes W c"
  let ?es = "if truthy d then entries d else []"
  have fld: "initializeField (instantiate n W) W ?m k a' \<noteq> Inl StackOverflow"
    if mem: "(k, a') \<in> set (mergeFields (fields' ?m) d)" for k a'
  proof -
    from mem obtain a where a: "(k, a) \<in> set (fields' ?m)" and a': "a' = mergedField ?es k a"
      unfolding mergeFields_eq2 by auto
    show ?thesis
    proof (cases "valueOf a' = VNull")
      case True
      then show ?thesis by (simp add: initializeField_null)
    next
      case False
      show ?thesis
      proof (cases "isRelation a")
        case False
        then obtain v mu where "a' = Attr v mu"
          unfolding a' by (cases "mergedField ?es k a") (auto simp: isRelation_def simp flip: type_mergedField [of ?es k a])
        then show ?thesis by (simp add: initializeField_Attr_eq)
      next
        case True
        with fb a have "valueOf a = VNull" by (auto simp: factoryBuilt_def)
        with False mergedField_value [of ?es k a] have "(k, valueOf a') \<in> set ?es"
          by (auto simp: a')
        then have ent: "(k, valueOf a') \<in> set (entries d)" by (auto split: if_splits)
        from size_entries [OF ent] Suc.prems have small: "size (valueOf a') < n" by simp
        have one: "instantiate n W c' (valueOf a') \<noteq> Inl StackOverflow" for c'
          by (rule Suc.IH [OF small])
        have many: "instantiate n W c' x \<noteq> Inl StackOverflow"
          if "valueOf a' = VArr xs" "x \<in> set xs" for c' xs x
        proof -
          from that size_element [of x xs] small have "size x < n" by simp
          then show ?thesis by (rule Suc.IH)
        qed
        show ?thesis
          by (rule initializeField_no_overflow [of "instantiate n W" a' W ?m k, OF one many])
      qed
    qed
  qed
  have "initializeFields (instantiate n W) W ?m (mergeFields (fields' ?m) d) [] \<noteq> Inl StackOverflow"
    by (rule initializeFields_no_overflow) (use fld in blast)
  then show ?case by (auto split: sum.splits)
qed

text \<open>A result other than the exhausted bound is the result for every larger bound.\<close>

lemma mapE_mono:
  assumes "\<And>x r. f x = r \<Longrightarrow> r \<noteq> Inl StackOverflow \<Longrightarrow> g x = r"
  shows "mapE f xs = r \<Longrightarrow> r \<noteq> Inl StackOverflow \<Longrightarrow> mapE g xs = r"
proof (induction xs arbitrary: r)
  case Nil
  then show ?case by simp
next
  case (Cons x xs)
  show ?case
  proof (cases "f x")
    case (Inl err)
    with Cons.prems have r: "r = Inl err" and "err \<noteq> StackOverflow" by auto
    with assms [OF Inl] have "g x = Inl err" by simp
    then show ?thesis by (simp add: r)
  next
    case (Inr y)
    with assms [OF Inr] have gx: "g x = Inr y" by simp
    show ?thesis
    proof (cases "mapE f xs")
      case (Inl err)
      with Cons.prems Inr have r: "r = Inl err" and "err \<noteq> StackOverflow" by auto
      with Cons.IH [OF Inl] have "mapE g xs = Inl err" by simp
      then show ?thesis by (simp add: r gx)
    next
      case ys: (Inr ys)
      with Cons.IH [OF ys] have "mapE g xs = Inr ys" by simp
      with Cons.prems(1) Inr ys show ?thesis by (simp add: gx)
    qed
  qed
qed

lemma initializeField_mono:
  assumes mono: "\<And>c v r. new c v = r \<Longrightarrow> r \<noteq> Inl StackOverflow \<Longrightarrow> new' c v = r"
    and res: "initializeField new W m key a = r"
    and ok: "r \<noteq> Inl StackOverflow"
  shows "initializeField new' W m key a = r"
proof (cases "isRelation a")
  case False
  then obtain v mu where "a = Attr v mu" by (cases a) (auto simp: isRelation_def)
  with res show ?thesis by (simp add: initializeField_Attr_eq)
next
  case True
  note e = res [unfolded initializeField_relation [OF True]]
  show ?thesis
  proof (cases "valueOf a = VNull \<or> isNumber (valueOf a)")
    case True
    with e show ?thesis by (auto simp: initializeField_relation [OF \<open>isRelation a\<close>])
  next
    case f1: False
    show ?thesis
    proof (cases "index0 (valueOf a)")
      case (Inl err)
      with e f1 show ?thesis by (auto simp: initializeField_relation [OF True])
    next
      case i0: (Inr v0)
      show ?thesis
      proof (cases "isNumber v0")
        case True
        with e f1 i0 show ?thesis by (auto simp: initializeField_relation [OF \<open>isRelation a\<close>])
      next
        case n0: False
        show ?thesis
        proof (cases "resolveRelation W m a")
          case (Inl err)
          with e f1 i0 n0 show ?thesis by (auto simp: initializeField_relation [OF True])
        next
          case c: (Inr c)
          show ?thesis
          proof (cases "truthy (valueOf a)")
            case False
            with e f1 i0 n0 c show ?thesis by (auto simp: initializeField_relation [OF True])
          next
            case t: True
            show ?thesis
            proof (cases "type a = TypeHasOne \<or> type a = TypeBelongsTo")
              case True
              with e f1 i0 n0 c t have "new c (valueOf a) = r" by auto
              from mono [OF this ok] True f1 i0 n0 c t show ?thesis
                by (auto simp: initializeField_relation [OF \<open>isRelation a\<close>])
            next
              case many: False
              show ?thesis
              proof (cases "valueOf a")
                case (VArr xs)
                from e f1 i0 n0 c t many VArr
                have r: "r = (case mapE (new c) xs of Inl err \<Rightarrow> Inl err | Inr ys \<Rightarrow> Inr (VArr ys))"
                  by auto
                with ok have "mapE (new c) xs \<noteq> Inl StackOverflow" by (auto split: sum.splits)
                from mapE_mono [of "new c" "new' c" xs, OF mono refl this]
                have "mapE (new' c) xs = mapE (new c) xs" .
                with r f1 i0 n0 c t many VArr show ?thesis
                  by (auto simp: initializeField_relation [OF True])
              qed (use e f1 i0 n0 c t many in \<open>auto simp: initializeField_relation [OF True]\<close>)
            qed
          qed
        qed
      qed
    qed
  qed
qed

lemma initializeFields_mono:
  assumes mono: "\<And>c v r. new c v = r \<Longrightarrow> r \<noteq> Inl StackOverflow \<Longrightarrow> new' c v = r"
  shows "initializeFields new W m fs this = r \<Longrightarrow> r \<noteq> Inl StackOverflow \<Longrightarrow>
     initializeFields new' W m fs this = r"
proof (induction fs arbitrary: this)
  case Nil
  then show ?case by simp
next
  case (Cons p fs)
  obtain k a where p: "p = (k, a)" by (cases p)
  show ?case
  proof (cases "initializeField new W m k a")
    case (Inl err)
    with Cons.prems have r: "r = Inl err" and "err \<noteq> StackOverflow" by (auto simp: p)
    with initializeField_mono [OF mono Inl] have "initializeField new' W m k a = Inl err" by simp
    then show ?thesis by (simp add: p r)
  next
    case (Inr v)
    with initializeField_mono [OF mono Inr] have "initializeField new' W m k a = Inr v" by simp
    moreover from Cons.prems(1) Inr have "initializeFields new W m fs (setprop this k v) = r"
      by (simp add: p)
    ultimately show ?thesis using Cons.IH Cons.prems(2) by (simp add: p)
  qed
qed

lemma instantiate_fuel_mono:
  "instantiate n W c d = r \<Longrightarrow> r \<noteq> Inl StackOverflow \<Longrightarrow> instantiate (Suc n) W c d = r"
proof (induction n arbitrary: c d r)
  case 0
  then show ?case by simp
next
  case (Suc n)
  let ?m = "classes W c"
  let ?fs = "mergeFields (fields' ?m) d"
  have mono: "instantiate (Suc n) W c' v = r'"
    if "instantiate n W c' v = r'" "r' \<noteq> Inl StackOverflow" for c' v r'
    using Suc.IH [OF that] .
  show ?case
  proof (cases "initializeFields (instantiate n W) W ?m ?fs []")
    case (Inl err)
    with Suc.prems have r: "r = Inl err" and "err \<noteq> StackOverflow" by auto
    with initializeFields_mono [of "instantiate n W" "instantiate (Suc n) W", OF mono Inl]
    have "initializeFields (instantiate (Suc n) W) W ?m ?fs [] = Inl err" by simp
    then show ?thesis unfolding instantiate_Suc [of "Suc n"] by (simp add: r)
  next
    case (Inr this)
    with Suc.prems have r: "r = Inr (VInst c this)" by auto
    from initializeFields_mono [of "instantiate n W" "instantiate (Suc n) W", OF mono Inr]
    have "initializeFields (instantiate (Suc n) W) W ?m ?fs [] = Inr this" by simp
    then show ?thesis unfolding instantiate_Suc [of "Suc n"] by (simp add: r)
  qed
qed

lemma instantiate_fuel_independent:
  assumes "factoryBuilt W" and "size d < n"
  shows "instantiate (n + k) W c d = instantiate n W c d"
proof (induction k)
  case 0
  then show ?case by simp
next
  case (Suc k)
  from instantiate_enough_fuel [OF assms, of c] Suc
  have "instantiate (n + k) W c d \<noteq> Inl StackOverflow" by simp
  from instantiate_fuel_mono [OF refl this] Suc show ?case by simp
qed

section \<open>Fresh and shared descriptors\<close>


lemma frame_refl [simp]: "frame h h"
  by (simp add: frame_def)

lemma frame_trans: "frame h1 h2 \<Longrightarrow> frame h2 h3 \<Longrightarrow> frame h1 h3"
  by (auto simp: frame_def)

lemma holds_frame:
  "holds h refs fs \<Longrightarrow> \<forall>x \<in> snd ` set refs. x < nextFree h \<Longrightarrow> frame h h' \<Longrightarrow> holds h' refs fs"
  unfolding holds_def
proof (induction refs fs rule: list_all2_induct)
  case Nil
  then show ?case by simp
next
  case (Cons r refs f fs)
  obtain k x where r: "r = (k, x)" by (cases r)
  obtain k' a where f: "f = (k', a)" by (cases f)
  from Cons.prems(1) have "x < nextFree h" by (simp add: r)
  with Cons.prems(2) have "cells h' x = cells h x" by (simp add: frame_def)
  with Cons show ?case by (simp add: r f)
qed

lemma holds_keys: "holds h refs fs \<Longrightarrow> map fst refs = map fst fs"
  unfolding holds_def by (induction refs fs rule: list_all2_induct) auto

text \<open>Descriptors built at a call are new, and hold the declared fields.\<close>

lemma freshFields_props:
  "freshFields fs h = (refs, h') \<Longrightarrow>
   frame h h' \<and> holds h' refs fs \<and> (\<forall>x \<in> snd ` set refs. nextFree h \<le> x \<and> x < nextFree h') \<and>
   distinct (map snd refs)"
proof (induction fs arbitrary: h refs h')
  case Nil
  then show ?case by (simp add: holds_def)
next
  case (Cons f fs)
  obtain k a where f: "f = (k, a)" by (cases f)
  define h1 where "h1 = h\<lparr>cells := (cells h)(nextFree h := a), nextFree := Suc (nextFree h)\<rparr>"
  obtain refs' h2 where rest: "freshFields fs h1 = (refs', h2)" by (cases "freshFields fs h1")
  from Cons.prems have refs: "refs = (k, nextFree h) # refs'" and h': "h' = h2"
    by (simp_all add: f alloc_def h1_def [symmetric] rest)
  from Cons.IH [OF rest] have fr: "frame h1 h2" and ho: "holds h2 refs' fs"
    and bd: "\<forall>x \<in> snd ` set refs'. nextFree h1 \<le> x \<and> x < nextFree h2" and di: "distinct (map snd refs')"
    by simp_all
  have f1: "frame h h1" by (simp add: frame_def h1_def)
  have t1: "nextFree h1 = Suc (nextFree h)" by (simp add: h1_def)
  have "cells h2 (nextFree h) = a" using fr by (simp add: frame_def h1_def)
  moreover have "nextFree h \<notin> snd ` set refs'" using bd t1 by auto
  moreover have "nextFree h < nextFree h2" using fr t1 by (simp add: frame_def)
  ultimately show ?case
    using frame_trans [OF f1 fr] ho bd di t1
    by (auto simp: refs h' holds_def f)
qed

text \<open>The merge over the store writes what the merge on values computes.\<close>

lemma holds_write:
  assumes ho: "holds h refs nf"
    and dk: "distinct (map fst refs)"
    and dx: "distinct (map snd refs)"
    and x: "map_of refs key = Some x"
  shows "holds (writeValue x v h) refs (setFieldValue nf key v)"
  using ho dk dx x unfolding holds_def
proof (induction refs nf rule: list_all2_induct)
  case Nil
  then show ?case by (simp add: setFieldValue_def)
next
  case (Cons r refs f nf)
  obtain k y where r: "r = (k, y)" by (cases r)
  obtain k' a where f: "f = (k', a)" by (cases f)
  from Cons.hyps(1) have kk: "k' = k" and a: "cells h y = a" by (simp_all add: r f)
  show ?case
  proof (cases "k = key")
    case True
    with Cons.prems(3) have xy: "x = y" by (simp add: r)
    have "list_all2 (\<lambda>(k, x) (k', a). k' = k \<and> cells (writeValue y v h) x = a) refs
        (setFieldValue nf key v)"
    proof -
      have nokey: "key \<notin> fst ` set refs" using Cons.prems(1) True by (simp add: r)
      have noaddr: "y \<notin> snd ` set refs" using Cons.prems(2) by (simp add: r)
      from Cons.hyps(2) nokey noaddr show ?thesis
      proof (induction refs nf rule: list_all2_induct)
        case Nil
        then show ?case by (simp add: setFieldValue_def)
      next
        case (Cons r refs f nf)
        then show ?case
          by (cases r; cases f) (auto simp: setFieldValue_def writeValue_def)
      qed
    qed
    then show ?thesis
      using True a by (simp add: r f kk xy setFieldValue_def writeValue_def)
  next
    case False
    with Cons.prems(3) have x: "map_of refs key = Some x" by (simp add: r)
    then have "x \<in> snd ` set refs" by (metis map_of_SomeD image_eqI snd_conv)
    then have "x \<noteq> y" using Cons.prems(2) by (auto simp: r)
    moreover have "list_all2 (\<lambda>(k, z) (k', a). k' = k \<and> cells (writeValue x v h) z = a) refs
        (setFieldValue nf key v)"
      using Cons.IH Cons.prems x by (simp add: r)
    ultimately show ?thesis
      using False a
      by (simp add: r f kk) (simp add: setFieldValue_def writeValue_def)
  qed
qed

lemma frame_writeValue:
  "lo \<le> x \<Longrightarrow> frame h0 h \<Longrightarrow> nextFree h0 \<le> lo \<Longrightarrow> frame h0 (writeValue x v h)"
  by (auto simp: frame_def writeValue_def)

lemma nextFree_writeValue [simp]: "nextFree (writeValue x v h) = nextFree h"
  by (simp add: writeValue_def)

lemma merge_fold_store:
  assumes dk: "distinct (map fst refs)"
    and dx: "distinct (map snd refs)"
    and lo: "\<forall>x \<in> snd ` set refs. nextFree h0 \<le> x"
  shows "holds h refs nf \<Longrightarrow> frame h0 h \<Longrightarrow>
    holds (fold (\<lambda>(key, v) h'. case map_of refs key of None \<Rightarrow> h' | Some x \<Rightarrow> writeValue x v h') es h)
      refs
      (fold (\<lambda>(key, v) newFields.
               if key \<notin> set (map fst refs) then newFields else setFieldValue newFields key v) es nf) \<and>
    frame h0 (fold (\<lambda>(key, v) h'. case map_of refs key of None \<Rightarrow> h' | Some x \<Rightarrow> writeValue x v h') es h) \<and>
    nextFree (fold (\<lambda>(key, v) h'. case map_of refs key of None \<Rightarrow> h' | Some x \<Rightarrow> writeValue x v h') es h)
      = nextFree h"
proof (induction es arbitrary: h nf)
  case Nil
  then show ?case by simp
next
  case (Cons e es)
  obtain key v where e: "e = (key, v)" by (cases e)
  show ?case
  proof (cases "map_of refs key")
    case None
    then have "key \<notin> set (map fst refs)" by (simp add: map_of_eq_None_iff)
    with Cons.IH [OF Cons.prems] None show ?thesis by (simp add: e)
  next
    case (Some x)
    then have mem: "(key, x) \<in> set refs" by (rule map_of_SomeD)
    then have kin: "key \<in> set (map fst refs)" by force
    from mem have "x \<in> snd ` set refs" by force
    with lo have xlo: "nextFree h0 \<le> x" by blast
    have ho: "holds (writeValue x v h) refs (setFieldValue nf key v)"
      by (rule holds_write [OF Cons.prems(1) dk dx Some])
    have fr: "frame h0 (writeValue x v h)"
      by (rule frame_writeValue [OF xlo Cons.prems(2) order_refl])
    from Cons.IH [OF ho fr] Some kin show ?thesis by (simp add: e)
  qed
qed

lemma mergeFieldsS_entries:
  "mergeFieldsS P c data h =
     (if \<not> truthy data then fieldsMethod P c h
      else
        (case fieldsMethod P c h of
           (newFields, h1) \<Rightarrow>
             (newFields,
              fold (\<lambda>(key, v) h'.
                      case map_of newFields key of
                        None \<Rightarrow> h'
                      | Some x \<Rightarrow> writeValue x v h')
                (entries data) h1)))"
proof -
  have step: "(\<lambda>(k, v) s. if k \<notin> fst ` set nf then s
                 else (case map_of nf k of None \<Rightarrow> s | Some x \<Rightarrow> writeValue x v s))
      = (\<lambda>(k, v) s. case map_of nf k of None \<Rightarrow> s | Some x \<Rightarrow> writeValue x v s)"
    for nf :: FieldRefs
    by (auto simp: fun_eq_iff map_of_eq_None_iff [THEN iffD2] split: option.splits)
  have "fold (\<lambda>(key, v) h'. if \<not> includesKey (map fst nf) key then h'
               else (case map_of nf (propertyKey key) of None \<Rightarrow> h' | Some x \<Rightarrow> writeValue x v h'))
          (forEach data) h1
      = fold (\<lambda>(key, v) h'. case map_of nf key of None \<Rightarrow> h' | Some x \<Rightarrow> writeValue x v h')
          (entries data) h1" for nf :: FieldRefs and h1
    using fold_named [of "map fst nf"
        "\<lambda>k v s. case map_of nf k of None \<Rightarrow> s | Some x \<Rightarrow> writeValue x v s" "forEach data" h1]
    by (simp add: entries_def step)
  then show ?thesis by (simp add: mergeFieldsS_def split: prod.splits)
qed

lemma mergeFieldsS_fresh:
  assumes fp: "freshProgram P"
    and m: "mergeFieldsS P c data h = (refs, h')"
  shows "holds h' refs (mergeFields (fields' (classes (base P) c)) data) \<and> frame h h' \<and>
     (\<forall>x \<in> snd ` set refs. x < nextFree h')"
proof -
  let ?fs = "fields' (classes (base P) c)"
  from fp have fm: "fieldsMethod P c = freshFields ?fs" and dist: "distinct (map fst ?fs)"
    by (simp_all add: freshProgram_def)
  obtain refs1 h1 where fr: "freshFields ?fs h = (refs1, h1)" by (cases "freshFields ?fs h")
  from freshFields_props [OF fr] have f1: "frame h h1" and ho: "holds h1 refs1 ?fs"
    and bd: "\<forall>x \<in> snd ` set refs1. nextFree h \<le> x \<and> x < nextFree h1"
    and dx: "distinct (map snd refs1)"
    by simp_all
  have keys: "map fst refs1 = map fst ?fs" by (rule holds_keys [OF ho])
  show ?thesis
  proof (cases "truthy data")
    case False
    with m fm fr have "refs = refs1" "h' = h1" by (simp_all add: mergeFieldsS_entries)
    with False ho f1 bd show ?thesis by (simp add: mergeFields_entries)
  next
    case True
    let ?h2 = "fold (\<lambda>(key, v) h'. case map_of refs1 key of None \<Rightarrow> h' | Some x \<Rightarrow> writeValue x v h')
        (entries data) h1"
    from m fm fr True have r: "refs = refs1" and h': "h' = ?h2"
      by (auto simp: mergeFieldsS_entries)
    have dk: "distinct (map fst refs1)" using dist keys by simp
    have lo: "\<forall>x \<in> snd ` set refs1. nextFree h \<le> x" using bd by blast
    from merge_fold_store [OF dk dx lo ho f1, of "entries data"]
    have "holds ?h2 refs1 (mergeFields ?fs data)" and "frame h ?h2" and "nextFree ?h2 = nextFree h1"
      using True by (simp_all add: mergeFields_entries keys)
    with bd show ?thesis by (simp add: r h')
  qed
qed

text \<open>
  The constructor over the store returns what the constructor on values returns,
  and leaves the descriptors of the store as they were.
\<close>

lemma mapES_sim:
  assumes sim: "\<And>v h. fst (f v h) = g v \<and> frame h (snd (f v h))"
  shows "fst (mapES f xs h) = mapE g xs \<and> frame h (snd (mapES f xs h))"
proof (induction xs arbitrary: h)
  case Nil
  then show ?case by simp
next
  case (Cons x xs)
  obtain r h1 where f: "f x h = (r, h1)" by (cases "f x h")
  from sim [of x h] f have r: "r = g x" and f1: "frame h h1" by simp_all
  show ?case
  proof (cases r)
    case (Inl err)
    have fx: "f x h = (Inl err, h1)" using f Inl by simp
    have gx: "g x = Inl err" using r Inl by simp
    show ?thesis using f1 by (simp add: fx gx)
  next
    case (Inr y)
    have fx: "f x h = (Inr y, h1)" using f Inr by simp
    have gx: "g x = Inr y" using r Inr by simp
    obtain rs h2 where m: "mapES f xs h1 = (rs, h2)" by (cases "mapES f xs h1")
    from Cons.IH [of h1] m have rs: "rs = mapE g xs" and f2: "frame h1 h2" by simp_all
    note f3 = frame_trans [OF f1 f2]
    show ?thesis
    proof (cases rs)
      case (Inl err)
      have "mapES f xs h1 = (Inl err, h2)" "mapE g xs = Inl err" using m rs Inl by simp_all
      then show ?thesis using f3 by (simp add: fx gx)
    next
      case (Inr ys)
      have "mapES f xs h1 = (Inr ys, h2)" "mapE g xs = Inr ys" using m rs Inr by simp_all
      then show ?thesis using f3 by (simp add: fx gx)
    qed
  qed
qed

lemma initializeFieldS_sim:
  assumes sim: "\<And>c v h. fst (new c v h) = newp c v \<and> frame h (snd (new c v h))"
    and cell: "cells h x = a"
  shows "fst (initializeFieldS new W m key x h) = initializeField newp W m key a \<and>
     frame h (snd (initializeFieldS new W m key x h))"
proof (cases "valueOf a = VNull")
  case True
  then show ?thesis by (simp add: initializeFieldS_def initializeField_def cell)
next
  case notnull: False
  show ?thesis
  proof (cases "isRelation a")
    case False
    then obtain v mu where a: "a = Attr v mu" by (cases a) (auto simp: isRelation_def)
    then show ?thesis
      by (simp add: initializeFieldS_def initializeField_def cell split: option.splits)
  next
    case rel: True
    have S: "initializeFieldS new W m key x h =
       (if isNumber (valueOf a) then (Inr VNull, h)
        else
          (case index0 (valueOf a) of
             Inl err \<Rightarrow> (Inl err, h)
           | Inr v0 \<Rightarrow>
               if isNumber v0 then (Inr VNull, h)
               else
                 (case resolveRelation W m a of
                    Inl err \<Rightarrow> (Inl err, h)
                  | Inr c \<Rightarrow>
                      if \<not> truthy (valueOf a) then (Inr VNull, h)
                      else if type a = TypeHasOne \<or> type a = TypeBelongsTo then new c (valueOf a) h
                      else
                        (case valueOf a of
                           VArr xs \<Rightarrow>
                             (case mapES (new c) xs h of
                                (Inl err, h1) \<Rightarrow> (Inl err, h1)
                              | (Inr ys, h1) \<Rightarrow> (Inr (VArr ys), h1))
                         | _ \<Rightarrow> (Inl TypeError, h)))))"
      using rel notnull
      by (cases a) (auto simp: initializeFieldS_def cell isRelation_def split: sum.splits)
    note Pu = initializeField_relation [OF rel, of newp W m key]
    show ?thesis
    proof (cases "isNumber (valueOf a)")
      case True
      then show ?thesis by (simp add: S Pu notnull)
    next
      case nn: False
      show ?thesis
      proof (cases "index0 (valueOf a)")
        case (Inl err)
        then show ?thesis by (simp add: S Pu notnull nn)
      next
        case i0: (Inr v0)
        show ?thesis
        proof (cases "isNumber v0")
          case True
          then show ?thesis by (simp add: S Pu notnull nn i0)
        next
          case n0: False
          show ?thesis
          proof (cases "resolveRelation W m a")
            case (Inl err)
            then show ?thesis by (simp add: S Pu notnull nn i0 n0)
          next
            case c: (Inr c)
            show ?thesis
            proof (cases "truthy (valueOf a)")
              case False
              then show ?thesis by (simp add: S Pu notnull nn i0 n0 c)
            next
              case t: True
              show ?thesis
              proof (cases "type a = TypeHasOne \<or> type a = TypeBelongsTo")
                case True
                then show ?thesis
                  using sim [of c "valueOf a" h] by (simp add: S Pu notnull nn i0 n0 c t)
              next
                case many: False
                show ?thesis
                proof (cases "valueOf a")
                  case (VArr xs)
                  obtain rs h1 where ms: "mapES (new c) xs h = (rs, h1)"
                    by (cases "mapES (new c) xs h")
                  from mapES_sim [of "new c" "newp c" xs h] sim ms
                  have rs: "rs = mapE (newp c) xs" and f1: "frame h h1" by simp_all
                  show ?thesis
                  proof (cases rs)
                    case (Inl err)
                    have "mapES (new c) xs h = (Inl err, h1)" "mapE (newp c) xs = Inl err"
                      using ms rs Inl by simp_all
                    then show ?thesis
                      using f1 many by (simp add: S Pu notnull nn i0 n0 c t VArr)
                  next
                    case (Inr ys)
                    have "mapES (new c) xs h = (Inr ys, h1)" "mapE (newp c) xs = Inr ys"
                      using ms rs Inr by simp_all
                    then show ?thesis
                      using f1 many by (simp add: S Pu notnull nn i0 n0 c t VArr)
                  qed
                qed (simp_all add: S Pu notnull nn i0 n0 c t many)
              qed
            qed
          qed
        qed
      qed
    qed
  qed
qed

lemma initializeFieldsS_sim:
  assumes sim: "\<And>c v h. fst (new c v h) = newp c v \<and> frame h (snd (new c v h))"
  shows "holds h refs fs \<Longrightarrow> \<forall>x \<in> snd ` set refs. x < nextFree h \<Longrightarrow>
     fst (initializeFieldsS new W m refs this h) = initializeFields newp W m fs this \<and>
     frame h (snd (initializeFieldsS new W m refs this h))"
proof (induction refs arbitrary: fs this h)
  case Nil
  then show ?case by (simp add: holds_def)
next
  case (Cons r refs)
  obtain key x where r: "r = (key, x)" by (cases r)
  from Cons.prems(1) obtain a fs' where fs: "fs = (key, a) # fs'" and cell: "cells h x = a"
    and ho: "holds h refs fs'"
    by (cases fs) (auto simp: holds_def r)
  obtain res h1 where i: "initializeFieldS new W m key x h = (res, h1)"
    by (cases "initializeFieldS new W m key x h")
  from initializeFieldS_sim [of new newp h x a W m key, OF sim cell] i
  have res: "res = initializeField newp W m key a" and f1: "frame h h1" by simp_all
  show ?case
  proof (cases res)
    case (Inl err)
    have "initializeFieldS new W m key x h = (Inl err, h1)" "initializeField newp W m key a = Inl err"
      using i res Inl by simp_all
    then show ?thesis using f1 by (simp add: r fs)
  next
    case (Inr v)
    have iv: "initializeFieldS new W m key x h = (Inr v, h1)" "initializeField newp W m key a = Inr v"
      using i res Inr by simp_all
    have bound: "\<forall>x \<in> snd ` set refs. x < nextFree h" using Cons.prems(2) by simp
    have ho1: "holds h1 refs fs'" by (rule holds_frame [OF ho bound f1])
    have b1: "\<forall>x \<in> snd ` set refs. x < nextFree h1"
      using bound f1 by (auto simp: frame_def)
    from Cons.IH [OF ho1 b1, of "setprop this key v"] frame_trans [OF f1]
    show ?thesis by (simp add: r fs iv)
  qed
qed

lemma instantiateS_fresh:
  assumes fp: "freshProgram P"
  shows "fst (instantiateS n P c data h) = instantiate n (base P) c data \<and>
     frame h (snd (instantiateS n P c data h))"
proof (induction n arbitrary: c data h)
  case 0
  then show ?case by simp
next
  case (Suc n)
  obtain refs h1 where m: "mergeFieldsS P c data h = (refs, h1)"
    by (cases "mergeFieldsS P c data h")
  from mergeFieldsS_fresh [OF fp m]
  have ho: "holds h1 refs (mergeFields (fields' (classes (base P) c)) data)"
    and f1: "frame h h1" and bd: "\<forall>x \<in> snd ` set refs. x < nextFree h1"
    by simp_all
  obtain res h2 where i: "initializeFieldsS (instantiateS n P) (base P) (classes (base P) c) refs [] h1
      = (res, h2)"
    by (cases "initializeFieldsS (instantiateS n P) (base P) (classes (base P) c) refs [] h1")
  from initializeFieldsS_sim [of "instantiateS n P" "instantiate n (base P)", OF Suc.IH ho bd,
      of "base P" "classes (base P) c" "[]"] i
  have res: "res = initializeFields (instantiate n (base P)) (base P) (classes (base P) c)
        (mergeFields (fields' (classes (base P) c)) data) []"
    and f2: "frame h1 h2"
    by simp_all
  note f3 = frame_trans [OF f1 f2]
  show ?case
  proof (cases res)
    case (Inl err)
    have "initializeFieldsS (instantiateS n P) (base P) (classes (base P) c) refs [] h1 = (Inl err, h2)"
      "initializeFields (instantiate n (base P)) (base P) (classes (base P) c)
        (mergeFields (fields' (classes (base P) c)) data) [] = Inl err"
      using i res Inl by simp_all
    then show ?thesis using f3 by (simp add: m)
  next
    case (Inr this)
    have "initializeFieldsS (instantiateS n P) (base P) (classes (base P) c) refs [] h1 = (Inr this, h2)"
      "initializeFields (instantiate n (base P)) (base P) (classes (base P) c)
        (mergeFields (fields' (classes (base P) c)) data) [] = Inr this"
      using i res Inr by simp_all
    then show ?thesis using f3 by (simp add: m)
  qed
qed

lemma tag_simps:
  "classes tagging c = Tag"
  "mutators Tag = []"
  "fields' Tag = [(''id'', Attr VNull None), (''name'', Attr (VStr '''') None)]"
  "base cachedTags = tagging"
  "fieldsMethod cachedTags c = sharedFields [(''id'', 0), (''name'', 1)]"
  "base freshTags = tagging"
  "fieldsMethod freshTags c = freshFields (fields' Tag)"
  "cells tagStore x = (if x = 0 then Attr VNull None else Attr (VStr '''') None)"
  "nextFree tagStore = 2"
  by (simp_all add: tagging_def Tag_def cachedTags_def freshTags_def tagStore_def attr_def)

text \<open>
  C9. The claim holds of a class whose \<^verbatim>\<open>fields()\<close> builds its descriptors at each
  call (\<open>instantiateS_fresh\<close>), and fails on the code for a class whose \<^verbatim>\<open>fields()\<close>
  returns the same descriptors at each call: the spread in \<^verbatim>\<open>$mergeFields\<close> copies
  the map, not the descriptors, and the assignment writes into the shared
  descriptor. The class of tags with the shared descriptors at the addresses 0
  and 1: before any call, the descriptor of \<^verbatim>\<open>name\<close> holds the empty string and
  \<^verbatim>\<open>new Tag({})\<close> has the name \<^verbatim>\<open>''\<close>; after \<^verbatim>\<open>new Tag({name: 'Ada'})\<close> the descriptor
  holds \<^verbatim>\<open>'Ada'\<close> and \<^verbatim>\<open>new Tag({})\<close> has the name \<^verbatim>\<open>'Ada'\<close>.
\<close>

theorem shared_descriptors_are_mutated:
  "fst (fieldsMethod cachedTags 0 tagStore) = [(''id'', 0), (''name'', 1)] \<and>
   cells tagStore 1 = Attr (VStr '''') None \<and>
   fst (instantiateS (Suc 0) cachedTags 0 (VObj []) tagStore)
     = Inr (VInst 0 [(''id'', VNull), (''name'', VStr '''')]) \<and>
   fst (instantiateS (Suc 0) cachedTags 0 (VObj [(''name'', VStr ''Ada'')]) tagStore)
     = Inr (VInst 0 [(''id'', VNull), (''name'', VStr ''Ada'')]) \<and>
   fst (fieldsMethod cachedTags 0
         (snd (instantiateS (Suc 0) cachedTags 0 (VObj [(''name'', VStr ''Ada'')]) tagStore)))
     = [(''id'', 0), (''name'', 1)] \<and>
   cells (snd (instantiateS (Suc 0) cachedTags 0 (VObj [(''name'', VStr ''Ada'')]) tagStore)) 1
     = Attr (VStr ''Ada'') None \<and>
   fst (instantiateS (Suc 0) cachedTags 0 (VObj [])
         (snd (instantiateS (Suc 0) cachedTags 0 (VObj [(''name'', VStr ''Ada'')]) tagStore)))
     = Inr (VInst 0 [(''id'', VNull), (''name'', VStr ''Ada'')])"
  by (simp add: tag_simps sharedFields_def mergeFieldsS_entries entries_no_length writeValue_def
      initializeFieldS_def setprop_def)

text \<open>
  With the descriptors built at each call, the second instance is that of the
  declared fields: by evaluation, and by the theorem for every fresh program.
\<close>

lemma fresh_descriptors_example:
  "fst (instantiateS (Suc 0) freshTags 0 (VObj [])
         (snd (instantiateS (Suc 0) freshTags 0 (VObj [(''name'', VStr ''Ada'')]) tagStore)))
     = Inr (VInst 0 [(''id'', VNull), (''name'', VStr '''')])"
  by (simp add: tag_simps alloc_def mergeFieldsS_entries entries_no_length writeValue_def
      initializeFieldS_def setprop_def)

lemma fresh_program_unaffected:
  assumes "freshProgram P"
  shows "fst (instantiateS n P c P2 (snd (instantiateS m P c' P1 h))) = fst (instantiateS n P c P2 h) \<and>
     frame h (snd (instantiateS m P c' P1 h))"
  using instantiateS_fresh [OF assms] by simp

end
